theory Spec2Isabelle
  imports Main "HOL-Library.Word"
begin


unbundle bit_operations_syntax

section \<open>The accept load balancer of ServerKit\<close>

text \<open>
  A shallow embedding of \<^verbatim>\<open>src/ext/common/ServerKit/AcceptLoadBalancer.h\<close>.
  The class \<^verbatim>\<open>AcceptLoadBalancer<Server>\<close> becomes the record \<open>balancer\<close>; each
  member function becomes a function that takes the object and the operating system
  (the record \<open>world\<close>) and returns both, updated. Everything the code does to the
  outside (system calls, log lines, hand-offs to a server's event loop) is appended
  to \<open>trace\<close>, in program order.
\<close>

subsection \<open>Errors, outcomes and observable events\<close>

text \<open>
  The \<^verbatim>\<open>errno\<close> codes the code distinguishes, and some of the others that
  \<^verbatim>\<open>accept\<close>, \<^verbatim>\<open>poll\<close> and \<^verbatim>\<open>write\<close> can report. A system call
  that returns \<^verbatim>\<open>-1\<close> and sets \<^verbatim>\<open>errno\<close> to \<open>e\<close> is the value \<open>Inl e\<close>.
\<close>

datatype errno =
    EAGAIN | EWOULDBLOCK | ENOSYS | EINVAL
  | EINTR | EMFILE | ENFILE | ENOMEM | ENOBUFS | EBADF | ECONNABORTED | EPIPE

text \<open>
  What ends a member function other than a normal return: a thrown
  \<^verbatim>\<open>SystemException\<close>, a failed \<^verbatim>\<open>assert\<close>, or behaviour C++ leaves undefined
  (an index outside \<^verbatim>\<open>servers\<close>, a remainder by zero).
\<close>

datatype error = SystemException errno | AssertionFailed | UndefinedBehaviour

text \<open>
  \<open>Blocked\<close>: the call never returns, because \<^verbatim>\<open>poll\<close> with an infinite timeout
  waits for an event that the world never produces.
\<close>

datatype outcome = Done | Threw error | Blocked

datatype event =
    SysAccept4 int "errno + int"        \<comment> \<open>\<^verbatim>\<open>callAccept4(serverFd, ..., O_NONBLOCK)\<close> and its result\<close>
  | SysAccept int "errno + int"         \<comment> \<open>\<^verbatim>\<open>syscalls::accept(serverFd, ...)\<close> and its result\<close>
  | SysSetNonBlocking int "errno option" \<comment> \<open>\<^verbatim>\<open>setNonBlocking(fd)\<close>; \<open>Some e\<close> when it throws\<close>
  | SysClose int                        \<comment> \<open>\<^verbatim>\<open>close(fd)\<close>, also from an \<^verbatim>\<open>FdGuard\<close>\<close>
  | SysPoll "int list" int              \<comment> \<open>\<^verbatim>\<open>poll\<close>: the descriptors polled, the timeout\<close>
  | SysPipe "errno + int \<times> int"        \<comment> \<open>\<^verbatim>\<open>pipe(exitPipe)\<close>\<close>
  | SysWrite int nat "errno option"     \<comment> \<open>\<^verbatim>\<open>write(fd, "x", n)\<close>\<close>
  | LogError errno                      \<comment> \<open>\<^verbatim>\<open>P_ERROR("Cannot accept client: ...")\<close>\<close>
  | LogNotice                           \<comment> \<open>\<^verbatim>\<open>P_NOTICE("Resuming accepting new clients")\<close>\<close>
  | LogDebug errno                      \<comment> \<open>\<^verbatim>\<open>P_DEBUG("Unable to set non-blocking flag ...")\<close>\<close>
  | LogWarn errno                       \<comment> \<open>\<^verbatim>\<open>P_WARN("Cannot write to the ... exit pipe")\<close>\<close>
  | RunLater nat int                    \<comment> \<open>\<^verbatim>\<open>servers[k]->...->runLater(feedNewClient(servers[k], fd))\<close>\<close>
  | ThreadStart
  | ThreadJoin
  | ThreadDelete

subsection \<open>The operating system\<close>

text \<open>
  One entry of a listening socket's queue: a connection waiting to be accepted (with the
  descriptor the kernel will give it), or an error that the next accept call on this
  socket reports (\<^verbatim>\<open>EMFILE\<close>, \<^verbatim>\<open>ECONNABORTED\<close>, ...). An empty queue answers
  \<^verbatim>\<open>EAGAIN\<close>: the endpoints are non-blocking.
\<close>

datatype accept_event = Conn int | Fault errno

record pollfd =
  fd :: int
  events :: "16 word"
  revents :: "16 word"

record world =
  backlog :: "int \<Rightarrow> accept_event list"
  accept4_unsupported :: "errno option"
    \<comment> \<open>\<open>Some e\<close>: this platform rejects every \<^verbatim>\<open>accept4\<close> call with \<open>e\<close>\<close>
  nonblock_fault :: "int \<Rightarrow> errno option"
    \<comment> \<open>\<open>Some e\<close>: \<^verbatim>\<open>setNonBlocking\<close> on this descriptor throws with code \<open>e\<close>\<close>
  poll_script :: "(errno + 16 word list) list"
    \<comment> \<open>what the successive \<^verbatim>\<open>poll\<close> calls report: an error, or the \<^verbatim>\<open>revents\<close>\<close>
  pipe_script :: "errno + int \<times> int"
  write_fault :: "errno option"
  trace :: "event list"

definition POLLIN :: "16 word" where
  "POLLIN = 1"

definition emit :: "event \<Rightarrow> world \<Rightarrow> world" where
  "emit e w = w\<lparr>trace := trace w @ [e]\<rparr>"

text \<open>Taking the head of a listening socket's queue, as one accept call does.\<close>

definition dequeue :: "int \<Rightarrow> world \<Rightarrow> (errno + int) \<times> world" where
  "dequeue serverFd w =
     (case backlog w serverFd of
        [] \<Rightarrow> (Inl EAGAIN, w)
      | Conn c # q \<Rightarrow> (Inr c, w\<lparr>backlog := (backlog w)(serverFd := q)\<rparr>)
      | Fault e # q \<Rightarrow> (Inl e, w\<lparr>backlog := (backlog w)(serverFd := q)\<rparr>))"

definition callAccept4 :: "int \<Rightarrow> world \<Rightarrow> (errno + int) \<times> world" where
  "callAccept4 serverFd w =
     (case accept4_unsupported w of
        Some e \<Rightarrow> (Inl e, emit (SysAccept4 serverFd (Inl e)) w)
      | None \<Rightarrow>
          (case dequeue serverFd w of
             (r, w') \<Rightarrow> (r, emit (SysAccept4 serverFd r) w')))"

definition sys_accept :: "int \<Rightarrow> world \<Rightarrow> (errno + int) \<times> world" where
  "sys_accept serverFd w =
     (case dequeue serverFd w of
        (r, w') \<Rightarrow> (r, emit (SysAccept serverFd r) w'))"

definition setNonBlocking :: "int \<Rightarrow> world \<Rightarrow> errno option \<times> world" where
  "setNonBlocking d w = (nonblock_fault w d, emit (SysSetNonBlocking d (nonblock_fault w d)) w)"

text \<open>
  \<^verbatim>\<open>poll(ps, nfds, timeout)\<close>. The next entry of the script is what the call reports:
  an error, or the \<^verbatim>\<open>revents\<close> of the first \<open>nfds\<close> entries (absent ones are 0).
  The return value is the number of entries with a non-zero \<^verbatim>\<open>revents\<close>. When the
  script is exhausted nothing ever happens again: a timed wait returns 0, an
  indefinite one (negative timeout) does not return, which is the result \<open>None\<close>.
\<close>

definition set_revents :: "(nat \<Rightarrow> pollfd) \<Rightarrow> nat \<Rightarrow> 16 word list \<Rightarrow> nat \<Rightarrow> pollfd" where
  "set_revents ps nfds rs =
     (\<lambda>i. if i < nfds then (ps i)\<lparr>revents := (if i < length rs then rs ! i else 0)\<rparr> else ps i)"

definition ready_count :: "(nat \<Rightarrow> pollfd) \<Rightarrow> nat \<Rightarrow> nat" where
  "ready_count ps nfds = length (filter (\<lambda>i. revents (ps i) \<noteq> 0) [0..<nfds])"

definition sys_poll ::
  "(nat \<Rightarrow> pollfd) \<Rightarrow> nat \<Rightarrow> int \<Rightarrow> world \<Rightarrow> (errno + nat) option \<times> (nat \<Rightarrow> pollfd) \<times> world" where
  "sys_poll ps nfds timeout w =
     (case poll_script w of
        [] \<Rightarrow>
          (if timeout < 0 then (None, ps, w)
           else (Some (Inr 0), set_revents ps nfds [],
                 emit (SysPoll (map (\<lambda>i. fd (ps i)) [0..<nfds]) timeout) w))
      | r # rest \<Rightarrow>
          (let w' = emit (SysPoll (map (\<lambda>i. fd (ps i)) [0..<nfds]) timeout)
                      (w\<lparr>poll_script := rest\<rparr>)
           in case r of
                Inl e \<Rightarrow> (Some (Inl e), ps, w')
              | Inr rs \<Rightarrow>
                  (Some (Inr (ready_count (set_revents ps nfds rs) nfds)),
                   set_revents ps nfds rs, w')))"

definition sys_pipe :: "world \<Rightarrow> (errno + int \<times> int) \<times> world" where
  "sys_pipe w = (pipe_script w, emit (SysPipe (pipe_script w)) w)"

definition sys_write :: "int \<Rightarrow> nat \<Rightarrow> world \<Rightarrow> errno option \<times> world" where
  "sys_write d n w = (write_fault w, emit (SysWrite d n (write_fault w)) w)"

subsection \<open>The object\<close>

text \<open>
  The data members, with the widths of the bit fields: \<^verbatim>\<open>nEndpoints: 2\<close>,
  \<^verbatim>\<open>newClientCount: 4\<close>, and \<^verbatim>\<open>unsigned int nextServer\<close>. The arrays are functions
  from the index; the code only uses indices inside their bounds. \<open>thread\<close> is
  \<^verbatim>\<open>thread != NULL\<close>. \<open>servers\<close> is the public vector of server pointers.
\<close>

record balancer =
  endpoints :: "nat \<Rightarrow> int"
  pollers :: "nat \<Rightarrow> pollfd"
  newClients :: "nat \<Rightarrow> int"
  nEndpoints :: "2 word"
  accept4Available :: bool
  quit :: bool
  newClientCount :: "4 word"
  nextServer :: "32 word"
  exitPipe :: "int \<times> int"
  thread :: bool
  servers :: "nat list"

definition ACCEPT_BURST_COUNT :: nat where
  "ACCEPT_BURST_COUNT = 16"

subsection \<open>\<^verbatim>\<open>acceptNonBlockingSocket\<close>\<close>

text \<open>
  The branch taken when \<^verbatim>\<open>accept4Available\<close> is false: a plain accept, then
  \<^verbatim>\<open>setNonBlocking\<close>; when that throws, the debug line is logged and the
  \<^verbatim>\<open>FdGuard\<close> closes the new descriptor on the way out.
\<close>

definition acceptPlain :: "int \<Rightarrow> world \<Rightarrow> (errno + int) \<times> world" where
  "acceptPlain serverFd w =
     (case sys_accept serverFd w of
        (Inl e, w1) \<Rightarrow> (Inl e, w1)
      | (Inr c, w1) \<Rightarrow>
          (case setNonBlocking c w1 of
             (Some e, w2) \<Rightarrow> (Inl e, emit (SysClose c) (emit (LogDebug e) w2))
           | (None, w2) \<Rightarrow> (Inr c, w2)))"

function (domintros) acceptNonBlockingSocket ::
  "int \<Rightarrow> balancer \<Rightarrow> world \<Rightarrow> (errno + int) \<times> balancer \<times> world" where
  "acceptNonBlockingSocket serverFd b w =
     (if accept4Available b then
        (case callAccept4 serverFd w of
           (r, w1) \<Rightarrow>
             if r = Inl ENOSYS \<or> r = Inl EINVAL
             then acceptNonBlockingSocket serverFd (b\<lparr>accept4Available := False\<rparr>) w1
             else (r, b, w1))
      else
        (case acceptPlain serverFd w of (r, w1) \<Rightarrow> (r, b, w1)))"
  by pat_completeness auto
termination
  by (relation "measure (\<lambda>(serverFd, b, w). if accept4Available b then 1 else 0)") auto

subsection \<open>\<^verbatim>\<open>acceptNewClients\<close>\<close>

text \<open>
  The \<^verbatim>\<open>for\<close> loop of \<^verbatim>\<open>acceptNewClients\<close>, from index \<open>i\<close>. It returns the value of
  \<open>i\<close> at the exit and the error code of the failed accept, if one failed.
\<close>

function acceptLoop ::
  "int \<Rightarrow> nat \<Rightarrow> balancer \<Rightarrow> world \<Rightarrow> nat \<times> errno option \<times> balancer \<times> world" where
  "acceptLoop endpoint i b w =
     (if i < ACCEPT_BURST_COUNT then
        (case acceptNonBlockingSocket endpoint b w of
           (Inl e, b1, w1) \<Rightarrow> (i, Some e, b1, w1)
         | (Inr c, b1, w1) \<Rightarrow>
             acceptLoop endpoint (i + 1) (b1\<lparr>newClients := (newClients b1)(i := c)\<rparr>) w1)
      else (i, None, b, w))"
  by pat_completeness auto
termination
  by (relation "measure (\<lambda>(endpoint, i, b, w). ACCEPT_BURST_COUNT - i)") auto

definition acceptNewClients :: "int \<Rightarrow> balancer \<Rightarrow> world \<Rightarrow> bool \<times> balancer \<times> world" where
  "acceptNewClients endpoint b w =
     (case acceptLoop endpoint 0 b w of
        (i, err, b1, w1) \<Rightarrow>
          (let b2 = b1\<lparr>newClientCount := word_of_nat i\<rparr> in
           case err of
             None \<Rightarrow> (True, b2, w1)
           | Some errcode \<Rightarrow>
               if errcode \<noteq> EAGAIN \<and> errcode \<noteq> EWOULDBLOCK then
                 (let w2 = emit (LogError errcode) w1;
                      ps = (pollers b2)(0 := (pollers b2 0)\<lparr>fd := fst (exitPipe b2), events := POLLIN\<rparr>)
                  in case sys_poll ps 1 3 w2 of
                       (r, ps', w3) \<Rightarrow>
                         if r = Some (Inr 1)
                         then (False, b2\<lparr>pollers := ps', quit := True\<rparr>, w3)
                         else (False, b2\<lparr>pollers := ps'\<rparr>, emit LogNotice w3))
               else (True, b2, w1)))"

subsection \<open>\<^verbatim>\<open>distributeNewClients\<close>\<close>

text \<open>
  The \<^verbatim>\<open>for\<close> loop of \<^verbatim>\<open>distributeNewClients\<close>, from index \<open>i\<close>. Reading
  \<^verbatim>\<open>servers[nextServer]\<close> outside the vector, which includes every read when the
  vector is empty, is undefined in C++. The sum \<^verbatim>\<open>nextServer + 1\<close> is computed in
  \<^verbatim>\<open>unsigned int\<close>, the remainder in \<^verbatim>\<open>size_t\<close>, and the result is stored back
  into the \<^verbatim>\<open>unsigned int\<close>.
\<close>

function distributeLoop :: "nat \<Rightarrow> balancer \<Rightarrow> world \<Rightarrow> outcome \<times> balancer \<times> world" where
  "distributeLoop i b w =
     (if i < unat (newClientCount b) then
        (if unat (nextServer b) < length (servers b) then
           distributeLoop (i + 1)
             (b\<lparr>nextServer := word_of_nat (unat (nextServer b + 1) mod length (servers b))\<rparr>)
             (emit (RunLater (unat (nextServer b)) (newClients b i)) w)
         else (Threw UndefinedBehaviour, b, w))
      else (Done, b, w))"
  by pat_completeness auto
termination
  by (relation "measure (\<lambda>(i, b, w). unat (newClientCount b) - i)") auto

definition distributeNewClients :: "balancer \<Rightarrow> world \<Rightarrow> outcome \<times> balancer \<times> world" where
  "distributeNewClients b w =
     (case distributeLoop 0 b w of
        (Done, b1, w1) \<Rightarrow> (Done, b1\<lparr>newClientCount := 0\<rparr>, w1)
      | (out, b1, w1) \<Rightarrow> (out, b1, w1))"

subsection \<open>\<^verbatim>\<open>pollAllEndpoints\<close> and \<^verbatim>\<open>mainLoop\<close>\<close>

definition pollAllEndpoints :: "balancer \<Rightarrow> world \<Rightarrow> outcome \<times> balancer \<times> world" where
  "pollAllEndpoints b w =
     (let ps0 = (pollers b)(0 := (pollers b 0)\<lparr>fd := fst (exitPipe b), events := POLLIN\<rparr>);
          ps = fold (\<lambda>i p. p(i + 1 := (p (i + 1))\<lparr>fd := endpoints b i, events := POLLIN\<rparr>))
                 [0..<unat (nEndpoints b)] ps0
      in case sys_poll ps (unat (nEndpoints b) + 1) (- 1) w of
           (None, ps', w') \<Rightarrow> (Blocked, b\<lparr>pollers := ps\<rparr>, w')
         | (Some (Inl e), ps', w') \<Rightarrow> (Threw (SystemException e), b\<lparr>pollers := ps'\<rparr>, w')
         | (Some (Inr n), ps', w') \<Rightarrow> (Done, b\<lparr>pollers := ps'\<rparr>, w'))"

text \<open>
  The recursion equations are used one step at a time. The scan below reads
  \<^verbatim>\<open>nEndpoints\<close> in every round, as the code does; that it ends rests on the fact that
  accepting does not change \<^verbatim>\<open>nEndpoints\<close>.
\<close>

declare acceptNonBlockingSocket.simps [simp del]

declare acceptLoop.simps [simp del]

declare distributeLoop.simps [simp del]

text \<open>The recursion of \<^verbatim>\<open>acceptNonBlockingSocket\<close>, unfolded.\<close>

lemma acceptNonBlockingSocket_unfold:
  "acceptNonBlockingSocket serverFd b w =
     (if accept4Available b then
        (case callAccept4 serverFd w of
           (r, w1) \<Rightarrow>
             if r = Inl ENOSYS \<or> r = Inl EINVAL
             then (case acceptPlain serverFd w1 of
                     (r2, w2) \<Rightarrow> (r2, b\<lparr>accept4Available := False\<rparr>, w2))
             else (r, b, w1))
      else
        (case acceptPlain serverFd w of (r, w1) \<Rightarrow> (r, b, w1)))"
proof (cases "accept4Available b")
  case False
  then show ?thesis by (simp add: acceptNonBlockingSocket.simps [of serverFd b w])
next
  case True
  have plain: "acceptNonBlockingSocket serverFd (b\<lparr>accept4Available := False\<rparr>) w1 =
      (case acceptPlain serverFd w1 of (r2, w2) \<Rightarrow> (r2, b\<lparr>accept4Available := False\<rparr>, w2))"
    for w1
    by (simp add: acceptNonBlockingSocket.simps [of serverFd "b\<lparr>accept4Available := False\<rparr>" w1])
  from True show ?thesis
    by (simp add: acceptNonBlockingSocket.simps [of serverFd b w] plain split: prod.splits)
qed

lemma acceptNonBlockingSocket_nEndpoints:
  "acceptNonBlockingSocket e b w = (r, b', w') \<Longrightarrow> nEndpoints b' = nEndpoints b"
  by (auto simp: acceptNonBlockingSocket_unfold split: if_splits prod.splits)

lemma acceptLoop_nEndpoints:
  "acceptLoop e i b w = (j, err, b', w') \<Longrightarrow> nEndpoints b' = nEndpoints b"
proof (induction e i b w rule: acceptLoop.induct)
  case (1 endpoint i b w)
  show ?case
  proof (cases "i < ACCEPT_BURST_COUNT")
    case False
    with "1.prems" show ?thesis by (simp add: acceptLoop.simps [of endpoint i b w])
  next
    case True
    obtain r b1 w1 where a: "acceptNonBlockingSocket endpoint b w = (r, b1, w1)"
      by (cases "acceptNonBlockingSocket endpoint b w") auto
    have n1: "nEndpoints b1 = nEndpoints b"
      using a by (rule acceptNonBlockingSocket_nEndpoints)
    show ?thesis
    proof (cases r)
      case (Inl e)
      with "1.prems" True a n1 show ?thesis
        by (simp add: acceptLoop.simps [of endpoint i b w])
    next
      case (Inr c)
      with "1.prems" True a
      have "acceptLoop endpoint (i + 1) (b1\<lparr>newClients := (newClients b1)(i := c)\<rparr>) w1
              = (j, err, b', w')"
        by (simp add: acceptLoop.simps [of endpoint i b w])
      then have "nEndpoints b' = nEndpoints (b1\<lparr>newClients := (newClients b1)(i := c)\<rparr>)"
        using "1.IH" True a Inr by simp
      with n1 show ?thesis by simp
    qed
  qed
qed

lemma acceptNewClients_nEndpoints:
  "acceptNewClients e b w = (ok, b', w') \<Longrightarrow> nEndpoints b' = nEndpoints b"
  by (auto simp: acceptNewClients_def Let_def split: prod.splits option.splits if_splits
           dest: acceptLoop_nEndpoints)

text \<open>
  The scan over the endpoints inside \<^verbatim>\<open>mainLoop\<close>, from index \<open>i\<close>; it stops at the
  first endpoint whose \<^verbatim>\<open>acceptNewClients\<close> returns false.
\<close>

function scanEndpoints :: "nat \<Rightarrow> balancer \<Rightarrow> world \<Rightarrow> balancer \<times> world" where
  "scanEndpoints i b w =
     (if i < unat (nEndpoints b) then
        (if revents (pollers b (i + 1)) AND POLLIN \<noteq> 0 then
           (case acceptNewClients (endpoints b i) b w of
              (ok, b1, w1) \<Rightarrow>
                if \<not> ok then (b1, w1) else scanEndpoints (i + 1) b1 w1)
         else scanEndpoints (i + 1) b w)
      else (b, w))"
  by pat_completeness auto
termination
proof (relation "measure (\<lambda>(i, b, w). unat (nEndpoints b) - i)")
  show "wf (measure (\<lambda>(i, b, w). unat (nEndpoints b) - i))" by simp
next
  fix i :: nat and b w x b1 y w1
  assume "i < unat (nEndpoints b)"
    and "(x, y) = acceptNewClients (endpoints b i) b w" and "(b1, w1) = y"
  then have "nEndpoints b1 = nEndpoints b"
    using acceptNewClients_nEndpoints [of "endpoints b i" b w x b1 w1] by simp
  with \<open>i < unat (nEndpoints b)\<close>
  show "((i + 1, b1, w1), i, b, w) \<in> measure (\<lambda>(i, b, w). unat (nEndpoints b) - i)"
    by simp
next
  fix i :: nat and b :: balancer and w :: world
  assume "i < unat (nEndpoints b)"
  then show "((i + 1, b, w), i, b, w) \<in> measure (\<lambda>(i, b, w). unat (nEndpoints b) - i)"
    by simp
qed


text \<open>One pass through the body of the \<^verbatim>\<open>while\<close> loop, and how it leaves the body.\<close>

datatype control = Next | Break | Raise error | Hang

definition mainLoopIteration :: "balancer \<Rightarrow> world \<Rightarrow> control \<times> balancer \<times> world" where
  "mainLoopIteration b w =
     (case pollAllEndpoints b w of
        (Blocked, b1, w1) \<Rightarrow> (Hang, b1, w1)
      | (Threw e, b1, w1) \<Rightarrow> (Raise e, b1, w1)
      | (Done, b1, w1) \<Rightarrow>
          if revents (pollers b1 0) AND POLLIN \<noteq> 0 then (Break, b1\<lparr>quit := True\<rparr>, w1)
          else
            (case scanEndpoints 0 b1 w1 of
               (b2, w2) \<Rightarrow>
                 (case distributeNewClients b2 w2 of
                    (Done, b3, w3) \<Rightarrow> (Next, b3, w3)
                  | (Threw e, b3, w3) \<Rightarrow> (Raise e, b3, w3)
                  | (Blocked, b3, w3) \<Rightarrow> (Hang, b3, w3))))"

text \<open>
  Accepting and distributing do not lengthen the script of \<^verbatim>\<open>poll\<close> results, and the
  wait of a pass consumes one entry: this is the measure of \<^verbatim>\<open>mainLoop\<close>.
\<close>

lemma poll_script_emit [simp]: "poll_script (emit e w) = poll_script w"
  by (simp add: emit_def)

lemma poll_script_dequeue: "dequeue d w = (r, w') \<Longrightarrow> poll_script w' = poll_script w"
  by (auto simp: dequeue_def split: list.splits accept_event.splits)

lemma poll_script_callAccept4: "callAccept4 d w = (r, w') \<Longrightarrow> poll_script w' = poll_script w"
  by (auto simp: callAccept4_def split: option.splits prod.splits dest: poll_script_dequeue)

lemma poll_script_sys_accept: "sys_accept d w = (r, w') \<Longrightarrow> poll_script w' = poll_script w"
  by (auto simp: sys_accept_def split: prod.splits dest: poll_script_dequeue)

lemma poll_script_setNonBlocking:
  "setNonBlocking d w = (r, w') \<Longrightarrow> poll_script w' = poll_script w"
  by (auto simp: setNonBlocking_def)

lemma poll_script_acceptPlain: "acceptPlain d w = (r, w') \<Longrightarrow> poll_script w' = poll_script w"
  by (auto simp: acceptPlain_def split: prod.splits sum.splits option.splits
           dest!: poll_script_sys_accept poll_script_setNonBlocking)

lemma poll_script_acceptNonBlockingSocket:
  "acceptNonBlockingSocket d b w = (r, b', w') \<Longrightarrow> poll_script w' = poll_script w"
  by (auto simp: acceptNonBlockingSocket_unfold split: if_splits prod.splits
           dest!: poll_script_callAccept4 poll_script_acceptPlain)

lemma poll_script_acceptLoop:
  "acceptLoop e i b w = (j, err, b', w') \<Longrightarrow> poll_script w' = poll_script w"
proof (induction e i b w rule: acceptLoop.induct)
  case (1 endpoint i b w)
  show ?case
  proof (cases "i < ACCEPT_BURST_COUNT")
    case False
    with "1.prems" show ?thesis by (simp add: acceptLoop.simps [of endpoint i b w])
  next
    case True
    obtain r b1 w1 where a: "acceptNonBlockingSocket endpoint b w = (r, b1, w1)"
      by (cases "acceptNonBlockingSocket endpoint b w") auto
    have n1: "poll_script w1 = poll_script w"
      using a by (rule poll_script_acceptNonBlockingSocket)
    show ?thesis
    proof (cases r)
      case (Inl e)
      with "1.prems" True a n1 show ?thesis
        by (simp add: acceptLoop.simps [of endpoint i b w])
    next
      case (Inr c)
      with "1.prems" True a
      have "acceptLoop endpoint (i + 1) (b1\<lparr>newClients := (newClients b1)(i := c)\<rparr>) w1
              = (j, err, b', w')"
        by (simp add: acceptLoop.simps [of endpoint i b w])
      then have "poll_script w' = poll_script w1"
        using "1.IH" True a Inr by simp
      with n1 show ?thesis by simp
    qed
  qed
qed

lemma poll_script_sys_poll:
  "sys_poll ps n t w = (r, ps', w') \<Longrightarrow> length (poll_script w') \<le> length (poll_script w)"
  by (auto simp: sys_poll_def Let_def split: list.splits if_splits sum.splits)

lemma poll_script_sys_poll_forever:
  "sys_poll ps n (- 1) w = (Some r, ps', w') \<Longrightarrow> length (poll_script w') < length (poll_script w)"
  by (auto simp: sys_poll_def Let_def split: list.splits if_splits sum.splits)

declare scanEndpoints.simps [simp del]

lemma poll_script_acceptNewClients:
  assumes "acceptNewClients e b w = (ok, b', w')"
  shows "length (poll_script w') \<le> length (poll_script w)"
proof -
  obtain i err b1 w1 where l: "acceptLoop e 0 b w = (i, err, b1, w1)"
    by (cases "acceptLoop e 0 b w") auto
  have p1: "poll_script w1 = poll_script w"
    using l by (rule poll_script_acceptLoop)
  obtain r ps' w3 where
    p: "sys_poll ((pollers b1)(0 := (pollers b1 0)\<lparr>fd := fst (exitPipe b1), events := POLLIN\<rparr>))
          1 3 (emit (LogError (the err)) w1) = (r, ps', w3)"
    using prod_cases3 by blast
  have p3: "length (poll_script w3) \<le> length (poll_script w1)"
    using poll_script_sys_poll [OF p] by simp
  from assms l p show ?thesis
    using p1 p3
    by (cases err) (auto simp: acceptNewClients_def Let_def split: if_splits)
qed

lemma poll_script_scanEndpoints:
  "scanEndpoints i b w = (b', w') \<Longrightarrow> length (poll_script w') \<le> length (poll_script w)"
proof (induction i b w rule: scanEndpoints.induct)
  case (1 i b w)
  show ?case
  proof (cases "i < unat (nEndpoints b)")
    case False
    with "1.prems" show ?thesis by (simp add: scanEndpoints.simps [of i b w])
  next
    case True
    show ?thesis
    proof (cases "revents (pollers b (i + 1)) AND POLLIN \<noteq> 0")
      case False
      with "1.prems" True "1.IH"(2) show ?thesis
        by (simp add: scanEndpoints.simps [of i b w])
    next
      case rd: True
      obtain ok b1 w1 where a: "acceptNewClients (endpoints b i) b w = (ok, b1, w1)"
        by (cases "acceptNewClients (endpoints b i) b w") auto
      have le1: "length (poll_script w1) \<le> length (poll_script w)"
        using a by (rule poll_script_acceptNewClients)
      show ?thesis
      proof (cases ok)
        case False
        with "1.prems" True rd a le1 show ?thesis
          by (simp add: scanEndpoints.simps [of i b w])
      next
        case ok: True
        with "1.prems" True rd a have "scanEndpoints (i + 1) b1 w1 = (b', w')"
          by (simp add: scanEndpoints.simps [of i b w])
        then have "length (poll_script w') \<le> length (poll_script w1)"
          using "1.IH"(1) True rd a ok by simp
        with le1 show ?thesis by simp
      qed
    qed
  qed
qed

lemma poll_script_distributeLoop:
  "distributeLoop i b w = (out, b', w') \<Longrightarrow> poll_script w' = poll_script w"
proof (induction i b w rule: distributeLoop.induct)
  case (1 i b w)
  then show ?case
    by (subst (asm) distributeLoop.simps) (auto split: if_splits)
qed

lemma poll_script_distributeNewClients:
  "distributeNewClients b w = (out, b', w') \<Longrightarrow> poll_script w' = poll_script w"
  by (auto simp: distributeNewClients_def split: prod.splits outcome.splits
           dest!: poll_script_distributeLoop)

lemma poll_script_pollAllEndpoints:
  "pollAllEndpoints b w = (Done, b', w') \<Longrightarrow> length (poll_script w') < length (poll_script w)"
  by (auto simp: pollAllEndpoints_def Let_def split: prod.splits option.splits sum.splits
           dest!: poll_script_sys_poll_forever)

lemma poll_script_mainLoopIteration:
  "mainLoopIteration b w = (Next, b', w') \<Longrightarrow> length (poll_script w') < length (poll_script w)"
  by (auto simp: mainLoopIteration_def
           split: prod.splits outcome.splits if_splits
           dest!: poll_script_pollAllEndpoints poll_script_scanEndpoints
                  poll_script_distributeNewClients)

text \<open>
  \<^verbatim>\<open>mainLoop\<close>. Every pass consumes one entry of the script of \<^verbatim>\<open>poll\<close> results, so
  the recursion ends: by a return, by an exception, or blocked in \<^verbatim>\<open>poll\<close> for ever.
\<close>

function mainLoop :: "balancer \<Rightarrow> world \<Rightarrow> outcome \<times> balancer \<times> world" where
  "mainLoop b w =
     (if quit b then (Done, b, w)
      else
        (case mainLoopIteration b w of
           (Next, b1, w1) \<Rightarrow> mainLoop b1 w1
         | (Break, b1, w1) \<Rightarrow> (Done, b1, w1)
         | (Raise e, b1, w1) \<Rightarrow> (Threw e, b1, w1)
         | (Hang, b1, w1) \<Rightarrow> (Blocked, b1, w1)))"
  by pat_completeness auto
termination
proof (relation "measure (\<lambda>(b, w). length (poll_script w))")
  show "wf (measure (\<lambda>(b, w). length (poll_script w)))" by simp
next
  fix b w x y b1 w1
  assume "(x, y) = mainLoopIteration b w" and "x = Next" and "(b1, w1) = y"
  then have "mainLoopIteration b w = (Next, b1, w1)" by simp
  then show "((b1, w1), b, w) \<in> measure (\<lambda>(b, w). length (poll_script w))"
    by (simp add: poll_script_mainLoopIteration)
qed

declare mainLoop.simps [simp del]

subsection \<open>Construction, registration, start and shutdown\<close>

text \<open>
  The constructor. \<open>mem\<close> is the storage the object is built in: the members the
  initialiser list does not mention (\<^verbatim>\<open>nextServer\<close> and the arrays) keep whatever it
  held. \<^verbatim>\<open>servers\<close> is default-constructed, empty. When \<^verbatim>\<open>setNonBlocking\<close> throws,
  the two \<^verbatim>\<open>FdGuard\<close>s close the pipe, the later one first.
\<close>

definition AcceptLoadBalancer :: "balancer \<Rightarrow> world \<Rightarrow> outcome \<times> balancer \<times> world" where
  "AcceptLoadBalancer mem w =
     (let b = mem\<lparr>nEndpoints := 0, accept4Available := True, quit := False,
                  newClientCount := 0, thread := False, servers := []\<rparr>
      in case sys_pipe w of
           (Inl e, w1) \<Rightarrow> (Threw (SystemException e), b, w1)
         | (Inr p, w1) \<Rightarrow>
             (let b1 = b\<lparr>exitPipe := p\<rparr> in
              case setNonBlocking (fst p) w1 of
                (Some e, w2) \<Rightarrow>
                  (Threw (SystemException e), b1,
                   emit (SysClose (fst p)) (emit (SysClose (snd p)) w2))
              | (None, w2) \<Rightarrow>
                  (case setNonBlocking (snd p) w2 of
                     (Some e, w3) \<Rightarrow>
                       (Threw (SystemException e), b1,
                        emit (SysClose (fst p)) (emit (SysClose (snd p)) w3))
                   | (None, w3) \<Rightarrow> (Done, b1, w3))))"

text \<open>
  \<^verbatim>\<open>listen\<close>. The constant \<^verbatim>\<open>SERVER_KIT_MAX_SERVER_ENDPOINTS\<close> is defined in
  \<^verbatim>\<open>Constants.h\<close>, outside this header: it is the first argument. The assertion is
  taken as compiled in. The increment wraps in the two bits of \<^verbatim>\<open>nEndpoints\<close>.
\<close>

definition listen :: "nat \<Rightarrow> int \<Rightarrow> balancer \<Rightarrow> world \<Rightarrow> outcome \<times> balancer \<times> world" where
  "listen SERVER_KIT_MAX_SERVER_ENDPOINTS d b w =
     (if \<not> unat (nEndpoints b) < SERVER_KIT_MAX_SERVER_ENDPOINTS
      then (Threw AssertionFailed, b, w)
      else
        (case setNonBlocking d w of
           (Some e, w1) \<Rightarrow> (Threw (SystemException e), b, w1)
         | (None, w1) \<Rightarrow>
             (Done,
              b\<lparr>endpoints := (endpoints b)(unat (nEndpoints b) := d),
                nEndpoints := nEndpoints b + 1\<rparr>,
              w1)))"

definition start :: "balancer \<Rightarrow> world \<Rightarrow> balancer \<times> world" where
  "start b w = (b\<lparr>thread := True\<rparr>, emit ThreadStart w)"

definition shutdown :: "balancer \<Rightarrow> world \<Rightarrow> balancer \<times> world" where
  "shutdown b w =
     (if thread b then
        (case sys_write (snd (exitPipe b)) 1 w of
           (r, w1) \<Rightarrow>
             (let w2 = (case r of
                          Some e \<Rightarrow>
                            if e \<noteq> EAGAIN \<and> e \<noteq> EWOULDBLOCK then emit (LogWarn e) w1 else w1
                        | None \<Rightarrow> w1)
              in (b\<lparr>thread := False\<rparr>, emit ThreadDelete (emit ThreadJoin w2))))
      else (b, w))"

text \<open>What the trace says: the descriptors accepted, handed to a server, and closed.\<close>

fun accepted :: "event list \<Rightarrow> int list" where
  "accepted [] = []"
| "accepted (SysAccept4 s (Inr c) # es) = c # accepted es"
| "accepted (SysAccept s (Inr c) # es) = c # accepted es"
| "accepted (e # es) = accepted es"

fun dispatched :: "event list \<Rightarrow> (nat \<times> int) list" where
  "dispatched [] = []"
| "dispatched (RunLater k c # es) = (k, c) # dispatched es"
| "dispatched (e # es) = dispatched es"

fun closed :: "event list \<Rightarrow> int list" where
  "closed [] = []"
| "closed (SysClose c # es) = c # closed es"
| "closed (e # es) = closed es"

subsection \<open>Reading a trace, and the concrete runs used below\<close>

text \<open>
  Classifying the events of a trace.
\<close>

fun is_accept4 :: "event \<Rightarrow> bool" where
  "is_accept4 (SysAccept4 s r) = True"
| "is_accept4 e = False"

fun is_accept :: "event \<Rightarrow> bool" where
  "is_accept (SysAccept s r) = True"
| "is_accept e = False"

text \<open>
  A world in which nothing is pending and nothing fails, and an idle object on the pipe
  \<open>(3, 4)\<close>: the starting points of the concrete runs below.
\<close>

definition blank_world :: world where
  "blank_world =
     \<lparr>backlog = (\<lambda>d. []), accept4_unsupported = None, nonblock_fault = (\<lambda>d. None),
      poll_script = [], pipe_script = Inr (3, 4), write_fault = None, trace = []\<rparr>"

definition blank_balancer :: balancer where
  "blank_balancer =
     \<lparr>endpoints = (\<lambda>i. 0), pollers = (\<lambda>i. \<lparr>fd = 0, events = 0, revents = 0\<rparr>),
      newClients = (\<lambda>i. 0), nEndpoints = 0, accept4Available = True, quit = False,
      newClientCount = 0, nextServer = 0, exitPipe = (3, 4), thread = False, servers = []\<rparr>"

text \<open>
  The connections that server \<open>i\<close> was handed, in order.
\<close>

definition received :: "nat \<Rightarrow> (nat \<times> int) list \<Rightarrow> int list" where
  "received i log = map snd (filter (\<lambda>p. fst p = i) log)"

text \<open>
  A step that leaves the cursor, the servers and the hand-offs alone; and the invariant
  of the rotation: the cursor is the number of hand-offs modulo the number of servers,
  and the \<open>j\<close>-th hand-off went to server \<open>j\<close> modulo that number.
\<close>

definition rotation_kept :: "balancer \<times> world \<Rightarrow> balancer \<times> world \<Rightarrow> bool" where
  "rotation_kept s t \<longleftrightarrow>
     nextServer (fst t) = nextServer (fst s) \<and> servers (fst t) = servers (fst s) \<and>
     dispatched (trace (snd t)) = dispatched (trace (snd s))"

definition rotation_inv :: "balancer \<times> world \<Rightarrow> bool" where
  "rotation_inv s \<longleftrightarrow>
     unat (nextServer (fst s)) = length (dispatched (trace (snd s))) mod length (servers (fst s)) \<and>
     map fst (dispatched (trace (snd s))) =
       map (\<lambda>j. j mod length (servers (fst s))) [0..<length (dispatched (trace (snd s)))]"

text \<open>
  An object with the endpoint 7 and two servers, and a world in which three connections
  wait on that endpoint and the exit pipe is signalled in the second pass.
\<close>

definition demo_balancer :: balancer where
  "demo_balancer = blank_balancer\<lparr>servers := [0, 1], nEndpoints := 1, endpoints := (\<lambda>i. 0)(0 := 7)\<rparr>"

definition demo_world :: world where
  "demo_world = blank_world\<lparr>backlog := (\<lambda>d. [])(7 := [Conn 10, Conn 11, Conn 12]),
                             poll_script := [Inr [0, 1], Inr [1]]\<rparr>"

text \<open>
  The events of a cooldown: the error line, a \<^verbatim>\<open>poll\<close> call, the notice.
\<close>

fun is_cooldown :: "event \<Rightarrow> bool" where
  "is_cooldown (LogError e) = True"
| "is_cooldown (SysPoll ds t) = True"
| "is_cooldown LogNotice = True"
| "is_cooldown e = False"

text \<open>
  The platform either has \<^verbatim>\<open>accept4\<close> or reports it as missing, with one of the
  two codes that make the code fall back.
\<close>

definition accept4_usable :: "balancer \<Rightarrow> world \<Rightarrow> bool" where
  "accept4_usable b w \<longleftrightarrow>
     (accept4Available b \<longrightarrow>
        accept4_unsupported w = None \<or> accept4_unsupported w = Some ENOSYS \<or>
        accept4_unsupported w = Some EINVAL)"

text \<open>
  Two connections wait on endpoint 7.
\<close>

definition trickle_world :: world where
  "trickle_world = blank_world\<lparr>backlog := (\<lambda>d. [])(7 := [Conn 10, Conn 11])\<rparr>"

text \<open>
  The next \<^verbatim>\<open>poll\<close> call will report an event on its first descriptor.
\<close>

definition control_fires :: "world \<Rightarrow> bool" where
  "control_fires w =
     (case poll_script w of
        Inr (r0 # rs) # rest \<Rightarrow> r0 \<noteq> 0
      | _ \<Rightarrow> False)"

text \<open>
  On endpoint 7 one connection waits, then accept fails with \<^verbatim>\<open>EMFILE\<close>;
  the exit pipe is signalled during the cooldown.
\<close>

definition exhausted_world :: world where
  "exhausted_world =
     blank_world\<lparr>backlog := (\<lambda>d. [])(7 := [Conn 10, Fault EMFILE, Conn 11]),
                 poll_script := [Inr [1]]\<rparr>"

text \<open>
  The object without its burst buffer and capability flag; a step is quiet when it
  changes nothing else in the object and adds no cooldown event to the trace.
\<close>

definition beside_burst :: "balancer \<Rightarrow> balancer" where
  "beside_burst b = b\<lparr>accept4Available := True, newClients := (\<lambda>i. 0)\<rparr>"

definition quiet :: "balancer \<times> world \<Rightarrow> balancer \<times> world \<Rightarrow> bool" where
  "quiet s t \<longleftrightarrow>
     beside_burst (fst t) = beside_burst (fst s) \<and>
     (\<exists>es. trace (snd t) = trace (snd s) @ es \<and> filter is_cooldown es = [])"

text \<open>
  An \<^verbatim>\<open>accept4\<close> call that the platform refused with one of the two codes.
\<close>

fun is_refusal :: "event \<Rightarrow> bool" where
  "is_refusal (SysAccept4 s (Inl ENOSYS)) = True"
| "is_refusal (SysAccept4 s (Inl EINVAL)) = True"
| "is_refusal e = False"

text \<open>
  A step after which the capability flag is set exactly if it was set before and no
  \<^verbatim>\<open>accept4\<close> call of the step was refused, and which makes no
  \<^verbatim>\<open>accept4\<close> call when the flag is clear.
\<close>

definition flag_follows :: "balancer \<times> world \<Rightarrow> balancer \<times> world \<Rightarrow> bool" where
  "flag_follows s t \<longleftrightarrow>
     (\<exists>es. trace (snd t) = trace (snd s) @ es \<and>
           (accept4Available (fst t) \<longleftrightarrow>
              accept4Available (fst s) \<and> filter is_refusal es = []) \<and>
           (\<not> accept4Available (fst s) \<longrightarrow> filter is_accept4 es = []))"

text \<open>
  A platform without \<^verbatim>\<open>accept4\<close>; three connections wait on endpoint 7.
\<close>

definition legacy_world :: world where
  "legacy_world =
     blank_world\<lparr>accept4_unsupported := Some ENOSYS,
                 backlog := (\<lambda>d. [])(7 := [Conn 10, Conn 11, Conn 12]),
                 poll_script := [Inr [0, 1], Inr [0, 1], Inr [1]]\<rparr>"

text \<open>
  The exit pipe and endpoint 7 are readable in the same pass; one connection waits.
\<close>

definition race_world :: world where
  "race_world = blank_world\<lparr>backlog := (\<lambda>d. [])(7 := [Conn 10]), poll_script := [Inr [1, 1]]\<rparr>"

text \<open>
  The exit pipe is full: a write to it fails with \<^verbatim>\<open>EAGAIN\<close>.
\<close>

definition full_pipe_world :: world where
  "full_pipe_world = blank_world\<lparr>write_fault := Some EAGAIN\<rparr>"

text \<open>
  Two endpoints, 7 and 8, readable in the same pass, with one connection each.
\<close>

definition pair_balancer :: balancer where
  "pair_balancer =
     blank_balancer\<lparr>servers := [0, 1], nEndpoints := 2, endpoints := (\<lambda>i. 0)(0 := 7, 1 := 8)\<rparr>"

definition pair_world :: world where
  "pair_world =
     blank_world\<lparr>backlog := (\<lambda>d. [])(7 := [Conn 10], 8 := [Conn 11]),
                 poll_script := [Inr [0, 1, 1], Inr [1]]\<rparr>"

text \<open>
  Registering the descriptors \<open>ds\<close> in order on a fresh object, with the capacity
  \<open>cap\<close>, up to the first call that does not return normally.
\<close>

definition registered :: "nat \<Rightarrow> int list \<Rightarrow> outcome \<times> balancer \<times> world" where
  "registered cap ds =
     fold (\<lambda>d (out, b, w). if out = Done then listen cap d b w else (out, b, w)) ds
       (Done, blank_balancer, blank_world)"

text \<open>
  Seventeen connections wait on endpoint 7.
\<close>

definition flood_world :: world where
  "flood_world =
     blank_world\<lparr>backlog := (\<lambda>d. [])(7 := map Conn [10, 11, 12, 13, 14, 15, 16, 17, 18, 19, 20,
                                                      21, 22, 23, 24, 25, 26]),
                 poll_script := [Inr [0, 1], Inr [0, 1], Inr [1]]\<rparr>"

section \<open>Auxiliary facts\<close>

subsection \<open>What each system call adds to the trace\<close>

lemma trace_emit [simp]: "trace (emit e w) = trace w @ [e]"
  by (simp add: emit_def)

lemma emit_fields [simp]:
  "backlog (emit e w) = backlog w"
  "accept4_unsupported (emit e w) = accept4_unsupported w"
  "nonblock_fault (emit e w) = nonblock_fault w"
  "pipe_script (emit e w) = pipe_script w"
  "write_fault (emit e w) = write_fault w"
  by (simp_all add: emit_def)

lemma trace_dequeue: "dequeue d w = (r, w') \<Longrightarrow> trace w' = trace w"
  by (auto simp: dequeue_def split: list.splits accept_event.splits)

lemma trace_callAccept4:
  "callAccept4 d w = (r, w') \<Longrightarrow> trace w' = trace w @ [SysAccept4 d r]"
  by (auto simp: callAccept4_def split: option.splits prod.splits dest: trace_dequeue)

lemma trace_sys_accept:
  "sys_accept d w = (r, w') \<Longrightarrow> trace w' = trace w @ [SysAccept d r]"
  by (auto simp: sys_accept_def split: prod.splits dest: trace_dequeue)

lemma trace_setNonBlocking:
  "setNonBlocking d w = (r, w') \<Longrightarrow> trace w' = trace w @ [SysSetNonBlocking d r]"
  by (auto simp: setNonBlocking_def)

lemma trace_acceptPlain:
  "acceptPlain d w = (r, w') \<Longrightarrow>
     \<exists>a es. trace w' = trace w @ SysAccept d a # es \<and>
          filter is_accept4 es = [] \<and> filter is_accept es = []"
  by (auto simp: acceptPlain_def split: prod.splits sum.splits option.splits
           dest!: trace_sys_accept trace_setNonBlocking)

subsection \<open>Rules for the three loops\<close>

lemma acceptLoop_rel:
  assumes step: "\<And>e b w r b' w'. acceptNonBlockingSocket e b w = (r, b', w') \<Longrightarrow> R (b, w) (b', w')"
    and store: "\<And>b w i c. R (b, w) (b\<lparr>newClients := (newClients b)(i := c)\<rparr>, w)"
    and refl: "\<And>s. R s s"
    and trans: "\<And>s t u. R s t \<Longrightarrow> R t u \<Longrightarrow> R s u"
    and run: "acceptLoop e i b w = (j, err, b', w')"
  shows "R (b, w) (b', w')"
  using run
proof (induction e i b w rule: acceptLoop.induct)
  case (1 endpoint i b w)
  show ?case
  proof (cases "i < ACCEPT_BURST_COUNT")
    case False
    with "1.prems" show ?thesis by (simp add: acceptLoop.simps [of endpoint i b w] refl)
  next
    case True
    obtain r b1 w1 where a: "acceptNonBlockingSocket endpoint b w = (r, b1, w1)"
      by (cases "acceptNonBlockingSocket endpoint b w") auto
    have r1: "R (b, w) (b1, w1)"
      using a by (rule step)
    show ?thesis
    proof (cases r)
      case (Inl e)
      with "1.prems" True a r1 show ?thesis
        by (simp add: acceptLoop.simps [of endpoint i b w])
    next
      case (Inr c)
      with "1.prems" True a
      have "acceptLoop endpoint (i + 1) (b1\<lparr>newClients := (newClients b1)(i := c)\<rparr>) w1
              = (j, err, b', w')"
        by (simp add: acceptLoop.simps [of endpoint i b w])
      then have "R (b1\<lparr>newClients := (newClients b1)(i := c)\<rparr>, w1) (b', w')"
        using "1.IH" True a Inr by simp
      with r1 store [of b1 w1 i c] show ?thesis by (blast intro: trans)
    qed
  qed
qed

lemma scanEndpoints_rel:
  assumes step: "\<And>e b w ok b' w'. acceptNewClients e b w = (ok, b', w') \<Longrightarrow> R (b, w) (b', w')"
    and refl: "\<And>s. R s s"
    and trans: "\<And>s t u. R s t \<Longrightarrow> R t u \<Longrightarrow> R s u"
    and run: "scanEndpoints i b w = (b', w')"
  shows "R (b, w) (b', w')"
  using run
proof (induction i b w rule: scanEndpoints.induct)
  case (1 i b w)
  show ?case
  proof (cases "i < unat (nEndpoints b)")
    case False
    with "1.prems" show ?thesis by (simp add: scanEndpoints.simps [of i b w] refl)
  next
    case True
    show ?thesis
    proof (cases "revents (pollers b (i + 1)) AND POLLIN \<noteq> 0")
      case False
      with "1.prems" True "1.IH"(2) show ?thesis
        by (simp add: scanEndpoints.simps [of i b w])
    next
      case rd: True
      obtain ok b1 w1 where a: "acceptNewClients (endpoints b i) b w = (ok, b1, w1)"
        by (cases "acceptNewClients (endpoints b i) b w") auto
      have r1: "R (b, w) (b1, w1)"
        using a by (rule step)
      show ?thesis
      proof (cases ok)
        case False
        with "1.prems" True rd a r1 show ?thesis
          by (simp add: scanEndpoints.simps [of i b w])
      next
        case ok: True
        with "1.prems" True rd a have "scanEndpoints (i + 1) b1 w1 = (b', w')"
          by (simp add: scanEndpoints.simps [of i b w])
        then have "R (b1, w1) (b', w')"
          using "1.IH"(1) True rd a ok by simp
        with r1 show ?thesis by (blast intro: trans)
      qed
    qed
  qed
qed

lemma mainLoop_rel:
  assumes step: "\<And>b w c b' w'. mainLoopIteration b w = (c, b', w') \<Longrightarrow> R (b, w) (b', w')"
    and refl: "\<And>s. R s s"
    and trans: "\<And>s t u. R s t \<Longrightarrow> R t u \<Longrightarrow> R s u"
    and run: "mainLoop b w = (out, b', w')"
  shows "R (b, w) (b', w')"
  using run
proof (induction b w rule: mainLoop.induct)
  case (1 b w)
  show ?case
  proof (cases "quit b")
    case True
    with "1.prems" show ?thesis by (simp add: mainLoop.simps [of b w] refl)
  next
    case False
    obtain c b1 w1 where a: "mainLoopIteration b w = (c, b1, w1)"
      by (cases "mainLoopIteration b w") auto
    have r1: "R (b, w) (b1, w1)"
      using a by (rule step)
    show ?thesis
    proof (cases c)
      case Next
      with "1.prems" False a have "mainLoop b1 w1 = (out, b', w')"
        by (simp add: mainLoop.simps [of b w])
      then have "R (b1, w1) (b', w')"
        using "1.IH" False a Next by simp
      with r1 show ?thesis by (blast intro: trans)
    next
      case Break
      with "1.prems" False a r1 show ?thesis by (simp add: mainLoop.simps [of b w])
    next
      case (Raise e)
      with "1.prems" False a r1 show ?thesis by (simp add: mainLoop.simps [of b w])
    next
      case Hang
      with "1.prems" False a r1 show ?thesis by (simp add: mainLoop.simps [of b w])
    qed
  qed
qed

subsection \<open>One distribution\<close>

lemma next_cursor:
  fixes c :: "32 word"
  assumes "unat c < N" "N \<le> 2 ^ 32"
  shows "unat (word_of_nat (unat (c + 1) mod N) :: 32 word) = (unat c + 1) mod N"
proof -
  have lt: "unat (c + 1) mod N < 2 ^ 32"
  proof -
    from assms have "0 < N" by simp
    then have "unat (c + 1) mod N < N" by simp
    then show ?thesis using assms(2) by (rule less_le_trans)
  qed
  have "unat (c + 1) mod N = (unat c + 1) mod N"
  proof (cases "unat c + 1 < 2 ^ 32")
    case True
    then have "unat (c + 1) = unat c + 1"
      by (simp add: unat_word_ariths)
    then show ?thesis by simp
  next
    case False
    with assms have N: "N = 2 ^ 32" and c: "unat c + 1 = 2 ^ 32" by simp_all
    have "unat (c + 1) = (unat c + 1) mod 2 ^ 32"
      by (simp add: unat_word_ariths)
    with c have "unat (c + 1) = 0" by simp
    with N c show ?thesis by simp
  qed
  moreover have "unat (word_of_nat (unat (c + 1) mod N) :: 32 word) = unat (c + 1) mod N"
    using lt by (simp add: unat_of_nat)
  ultimately show ?thesis by simp
qed

lemma dispatched_append: "dispatched (xs @ ys) = dispatched xs @ dispatched ys"
  by (induction xs rule: dispatched.induct) simp_all

lemma dispatched_RunLater_map:
  "dispatched (map (\<lambda>j. RunLater (f j) (g j)) js) = map (\<lambda>j. (f j, g j)) js"
  by (induction js) simp_all

lemma distributeLoop_run:
  assumes "unat (nextServer b) < length (servers b)" and "length (servers b) \<le> 2 ^ 32"
  shows "distributeLoop i b w =
     (Done,
      b\<lparr>nextServer :=
           word_of_nat ((unat (nextServer b) + (unat (newClientCount b) - i)) mod length (servers b))\<rparr>,
      w\<lparr>trace := trace w @
           map (\<lambda>j. RunLater ((unat (nextServer b) + (j - i)) mod length (servers b))
                               (newClients b j))
               [i..<unat (newClientCount b)]\<rparr>)"
  using assms
proof (induction i b w rule: distributeLoop.induct)
  case (1 i b w)
  let ?N = "length (servers b)" and ?n = "unat (newClientCount b)" and ?c = "unat (nextServer b)"
  show ?case
  proof (cases "i < ?n")
    case False
    then have "[i..<?n] = []" and "?n - i = 0" by simp_all
    moreover have "word_of_nat (?c mod ?N) = nextServer b"
      using "1.prems" by simp
    ultimately show ?thesis
      using False by (simp add: distributeLoop.simps [of i b w])
  next
    case True
    let ?b1 = "b\<lparr>nextServer := word_of_nat (unat (nextServer b + 1) mod ?N)\<rparr>"
    let ?w1 = "emit (RunLater ?c (newClients b i)) w"
    have c1: "unat (nextServer ?b1) = (?c + 1) mod ?N"
      using next_cursor [OF "1.prems"] by simp
    have N0: "0 < ?N" using "1.prems" by (cases "servers b") simp_all
    have lt1: "unat (nextServer ?b1) < length (servers ?b1)"
      using c1 N0 by simp
    have le1: "length (servers ?b1) \<le> 2 ^ 32" using "1.prems" by simp
    have ih: "distributeLoop (i + 1) ?b1 ?w1 =
       (Done,
        ?b1\<lparr>nextServer :=
             word_of_nat ((unat (nextServer ?b1) + (unat (newClientCount ?b1) - (i + 1)))
                            mod length (servers ?b1))\<rparr>,
        ?w1\<lparr>trace := trace ?w1 @
             map (\<lambda>j. RunLater ((unat (nextServer ?b1) + (j - (i + 1))) mod length (servers ?b1))
                                 (newClients ?b1 j))
                 [i + 1..<unat (newClientCount ?b1)]\<rparr>)"
      using "1.IH" [OF True _ lt1 le1] "1.prems" by simp
    have c1': "unat (word_of_nat (unat (nextServer b + 1) mod ?N) :: 32 word) = Suc ?c mod ?N"
      using c1 by simp
    have cur: "(Suc ?c mod ?N + ?n - Suc i) mod ?N = (?c + ?n - i) mod ?N"
    proof -
      have "Suc ?c mod ?N + ?n - Suc i = Suc ?c mod ?N + (?n - Suc i)"
        using True by simp
      then have "(Suc ?c mod ?N + ?n - Suc i) mod ?N = (Suc ?c + (?n - Suc i)) mod ?N"
        by (simp add: mod_add_left_eq)
      also have "Suc ?c + (?n - Suc i) = ?c + ?n - i" using True by simp
      finally show ?thesis .
    qed
    have slot: "(Suc ?c mod ?N + (j - Suc i)) mod ?N = (?c + (j - i)) mod ?N"
      if "Suc i \<le> j" for j
    proof -
      have "(Suc ?c mod ?N + (j - Suc i)) mod ?N = (Suc ?c + (j - Suc i)) mod ?N"
        by (simp add: mod_add_left_eq)
      also have "Suc ?c + (j - Suc i) = ?c + (j - i)" using that by simp
      finally show ?thesis .
    qed
    have tl: "map (\<lambda>j. RunLater ((Suc ?c mod ?N + (j - Suc i)) mod ?N) (newClients b j))
                [Suc i..<?n]
            = map (\<lambda>j. RunLater ((?c + (j - i)) mod ?N) (newClients b j)) [Suc i..<?n]"
    proof (rule map_cong [OF refl])
      fix j
      assume "j \<in> set [Suc i..<?n]"
      then have "Suc i \<le> j" by simp
      from slot [OF this]
      show "RunLater ((Suc ?c mod ?N + (j - Suc i)) mod ?N) (newClients b j)
          = RunLater ((?c + (j - i)) mod ?N) (newClients b j)"
        by (simp only:)
    qed
    have hd: "[i..<?n] = i # [Suc i..<?n]"
      using True by (simp add: upt_conv_Cons)
    show ?thesis
      using True "1.prems" ih
      by (simp add: distributeLoop.simps [of i b w] c1' cur tl hd emit_def)
  qed
qed

subsection \<open>Accepting and polling leave the rotation alone\<close>

lemma rotation_kept_refl: "rotation_kept s s"
  by (simp add: rotation_kept_def)

lemma rotation_kept_trans: "rotation_kept s t \<Longrightarrow> rotation_kept t u \<Longrightarrow> rotation_kept s u"
  by (simp add: rotation_kept_def)

lemma rotation_kept_acceptPlain:
  "acceptPlain d w = (r, w') \<Longrightarrow> dispatched (trace w') = dispatched (trace w)"
  by (auto simp: acceptPlain_def dispatched_append
           split: prod.splits sum.splits option.splits
           dest!: trace_sys_accept trace_setNonBlocking)

lemma rotation_kept_acceptNonBlockingSocket:
  "acceptNonBlockingSocket e b w = (r, b', w') \<Longrightarrow> rotation_kept (b, w) (b', w')"
  by (auto simp: acceptNonBlockingSocket_unfold rotation_kept_def dispatched_append
           split: if_splits prod.splits
           dest!: trace_callAccept4 rotation_kept_acceptPlain)

lemma rotation_kept_acceptLoop:
  "acceptLoop e i b w = (j, err, b', w') \<Longrightarrow> rotation_kept (b, w) (b', w')"
proof (erule acceptLoop_rel [rotated -1])
  show "rotation_kept (b, w) (b\<lparr>newClients := (newClients b)(i := c)\<rparr>, w)" for b w i c
    by (simp add: rotation_kept_def)
qed (auto intro: rotation_kept_acceptNonBlockingSocket rotation_kept_refl rotation_kept_trans)

lemma dispatched_sys_poll:
  "sys_poll ps n t w = (r, ps', w') \<Longrightarrow> dispatched (trace w') = dispatched (trace w)"
  by (auto simp: sys_poll_def Let_def dispatched_append split: list.splits if_splits sum.splits)

lemma rotation_kept_acceptNewClients:
  assumes "acceptNewClients e b w = (ok, b', w')"
  shows "rotation_kept (b, w) (b', w')"
proof -
  obtain i err b1 w1 where l: "acceptLoop e 0 b w = (i, err, b1, w1)"
    by (cases "acceptLoop e 0 b w") auto
  have k1: "rotation_kept (b, w) (b1, w1)"
    using l by (rule rotation_kept_acceptLoop)
  obtain r ps' w3 where
    p: "sys_poll ((pollers b1)(0 := (pollers b1 0)\<lparr>fd := fst (exitPipe b1), events := POLLIN\<rparr>))
          1 3 (emit (LogError (the err)) w1) = (r, ps', w3)"
    using prod_cases3 by blast
  have d3: "dispatched (trace w3) = dispatched (trace w1)"
    using dispatched_sys_poll [OF p] by (simp add: dispatched_append)
  from assms l p show ?thesis
    using k1 d3
    by (cases err)
       (auto simp: acceptNewClients_def Let_def rotation_kept_def dispatched_append
             split: if_splits)
qed

lemma rotation_kept_scanEndpoints:
  "scanEndpoints i b w = (b', w') \<Longrightarrow> rotation_kept (b, w) (b', w')"
  by (erule scanEndpoints_rel [rotated -1])
     (auto intro: rotation_kept_acceptNewClients rotation_kept_refl rotation_kept_trans)

lemma rotation_kept_pollAllEndpoints:
  "pollAllEndpoints b w = (out, b', w') \<Longrightarrow> rotation_kept (b, w) (b', w')"
  by (auto simp: pollAllEndpoints_def Let_def rotation_kept_def
           split: prod.splits option.splits sum.splits
           dest!: dispatched_sys_poll)

subsection \<open>The rotation invariant\<close>

lemma distributeNewClients_run:
  assumes "unat (nextServer b) < length (servers b)" and "length (servers b) \<le> 2 ^ 32"
  shows "distributeNewClients b w =
     (Done,
      b\<lparr>nextServer :=
           word_of_nat ((unat (nextServer b) + unat (newClientCount b)) mod length (servers b)),
        newClientCount := 0\<rparr>,
      w\<lparr>trace := trace w @
           map (\<lambda>j. RunLater ((unat (nextServer b) + j) mod length (servers b)) (newClients b j))
               [0..<unat (newClientCount b)]\<rparr>)"
  using distributeLoop_run [OF assms, of 0 w] by (simp add: distributeNewClients_def)

lemma rotation_inv_distributeNewClients:
  assumes inv: "rotation_inv (b, w)" and N: "0 < length (servers b)" "length (servers b) \<le> 2 ^ 32"
    and run: "distributeNewClients b w = (out, b', w')"
  shows "rotation_inv (b', w') \<and> servers b' = servers b \<and> out = Done"
proof -
  let ?N = "length (servers b)" and ?n = "unat (newClientCount b)"
  let ?K = "length (dispatched (trace w))"
  from inv have c: "unat (nextServer b) = ?K mod ?N"
    and f: "map fst (dispatched (trace w)) = map (\<lambda>j. j mod ?N) [0..<?K]"
    by (simp_all add: rotation_inv_def)
  have lt: "unat (nextServer b) < ?N" using c N by simp
  note r = distributeNewClients_run [OF lt N(2), of w]
  from run r have out: "out = Done"
    and b': "b' = b\<lparr>nextServer := word_of_nat ((unat (nextServer b) + ?n) mod ?N),
                    newClientCount := 0\<rparr>"
    and w': "w' = w\<lparr>trace := trace w @
           map (\<lambda>j. RunLater ((unat (nextServer b) + j) mod ?N) (newClients b j)) [0..<?n]\<rparr>"
    by simp_all
  have d': "dispatched (trace w') = dispatched (trace w) @
      map (\<lambda>j. ((unat (nextServer b) + j) mod ?N, newClients b j)) [0..<?n]"
    by (simp add: w' dispatched_append dispatched_RunLater_map)
  have len: "length (dispatched (trace w')) = ?K + ?n" by (simp add: d')
  have "(unat (nextServer b) + ?n) mod ?N < 2 ^ 32"
    using N by (meson less_le_trans mod_less_divisor)
  then have "unat (nextServer b') = (unat (nextServer b) + ?n) mod ?N"
    by (simp add: b' unat_of_nat)
  also have "\<dots> = (?K + ?n) mod ?N" by (simp add: c mod_add_left_eq)
  finally have c': "unat (nextServer b') = length (dispatched (trace w')) mod ?N"
    by (simp add: len)
  have "map (\<lambda>j. (unat (nextServer b) + j) mod ?N) [0..<?n] = map (\<lambda>j. (?K + j) mod ?N) [0..<?n]"
    by (simp add: c mod_add_left_eq)
  also have "\<dots> = map (\<lambda>j. j mod ?N) (map (\<lambda>j. j + ?K) [0..<?n])"
    by (simp add: add.commute)
  also have "map (\<lambda>j. j + ?K) [0..<?n] = [?K..<?K + ?n]"
    by (simp add: map_add_upt add.commute)
  finally have new: "map (\<lambda>j. (unat (nextServer b) + j) mod ?N) [0..<?n]
      = map (\<lambda>j. j mod ?N) [?K..<?K + ?n]" .
  have "map fst (dispatched (trace w')) =
      map (\<lambda>j. j mod ?N) [0..<?K] @ map (\<lambda>j. j mod ?N) [?K..<?K + ?n]"
    using f new by (simp add: d' comp_def)
  also have "\<dots> = map (\<lambda>j. j mod ?N) [0..<?K + ?n]"
    by (simp add: upt_add_eq_append [of 0 ?K ?n, simplified] del: upt_add_eq_append)
  finally have f': "map fst (dispatched (trace w')) =
      map (\<lambda>j. j mod ?N) [0..<length (dispatched (trace w'))]"
    by (simp add: len)
  have "servers b' = servers b" by (simp add: b')
  with c' f' out show ?thesis by (simp add: rotation_inv_def)
qed

lemma rotation_inv_kept:
  "rotation_kept s t \<Longrightarrow> rotation_inv s \<Longrightarrow> rotation_inv t \<and> servers (fst t) = servers (fst s)"
  by (simp add: rotation_kept_def rotation_inv_def)

lemma rotation_inv_mainLoopIteration:
  assumes inv: "rotation_inv (b, w)" and N: "0 < length (servers b)" "length (servers b) \<le> 2 ^ 32"
    and run: "mainLoopIteration b w = (c, b', w')"
  shows "rotation_inv (b', w') \<and> servers b' = servers b \<and> c \<noteq> Raise UndefinedBehaviour"
proof -
  obtain o1 b1 w1 where p: "pollAllEndpoints b w = (o1, b1, w1)"
    by (cases "pollAllEndpoints b w") auto
  have i1: "rotation_inv (b1, w1)" and s1: "servers b1 = servers b"
    using rotation_inv_kept [OF rotation_kept_pollAllEndpoints [OF p] inv] by simp_all
  have e1: "\<exists>e. o1 = Threw (SystemException e)" if "o1 = Threw x" for x
    using p that
    by (auto simp: pollAllEndpoints_def Let_def split: prod.splits option.splits sum.splits)
  obtain b2 w2 where s: "scanEndpoints 0 b1 w1 = (b2, w2)"
    by (cases "scanEndpoints 0 b1 w1") auto
  have i2: "rotation_inv (b2, w2)" and s2: "servers b2 = servers b"
    using rotation_inv_kept [OF rotation_kept_scanEndpoints [OF s] i1] s1 by simp_all
  obtain o3 b3 w3 where d: "distributeNewClients b2 w2 = (o3, b3, w3)"
    by (cases "distributeNewClients b2 w2") auto
  have i3: "rotation_inv (b3, w3)" and s3: "servers b3 = servers b" and o3: "o3 = Done"
    using rotation_inv_distributeNewClients [OF i2 _ _ d] N s2 by simp_all
  have iq: "rotation_inv (b1\<lparr>quit := True\<rparr>, w1)"
    using i1 by (simp add: rotation_inv_def)
  show ?thesis
  proof (cases o1)
    case Done
    with run p s d o3 i3 s3 iq s1 show ?thesis
      by (auto simp: mainLoopIteration_def split: if_splits)
  next
    case (Threw x)
    with e1 [OF Threw] run p i1 s1 show ?thesis
      by (auto simp: mainLoopIteration_def)
  next
    case Blocked
    with run p i1 s1 show ?thesis
      by (auto simp: mainLoopIteration_def)
  qed
qed

lemma mainLoop_inv:
  assumes step: "\<And>b w c b' w'. I (b, w) \<Longrightarrow> mainLoopIteration b w = (c, b', w') \<Longrightarrow>
                   I (b', w') \<and> c \<noteq> Raise UndefinedBehaviour"
    and init: "I (b, w)"
    and run: "mainLoop b w = (out, b', w')"
  shows "I (b', w') \<and> out \<noteq> Threw UndefinedBehaviour"
  using init run
proof (induction b w rule: mainLoop.induct)
  case (1 b w)
  show ?case
  proof (cases "quit b")
    case True
    with "1.prems" show ?thesis by (simp add: mainLoop.simps [of b w])
  next
    case False
    obtain c b1 w1 where a: "mainLoopIteration b w = (c, b1, w1)"
      by (cases "mainLoopIteration b w") auto
    have r1: "I (b1, w1)" and c1: "c \<noteq> Raise UndefinedBehaviour"
      using step [OF "1.prems"(1) a] by simp_all
    show ?thesis
    proof (cases c)
      case Next
      with "1.prems" False a have "mainLoop b1 w1 = (out, b', w')"
        by (simp add: mainLoop.simps [of b w])
      then show ?thesis
        using "1.IH" False a Next r1 by simp
    next
      case Break
      with "1.prems" False a r1 show ?thesis by (simp add: mainLoop.simps [of b w])
    next
      case (Raise e)
      with "1.prems" False a r1 c1 show ?thesis by (auto simp add: mainLoop.simps [of b w])
    next
      case Hang
      with "1.prems" False a r1 show ?thesis by (simp add: mainLoop.simps [of b w])
    qed
  qed
qed

lemma received_positions:
  assumes "map fst log = map (\<lambda>j. j mod N) [0..<length log]"
  shows "received i log =
     map (\<lambda>j. snd (log ! j)) (filter (\<lambda>j. j mod N = i) [0..<length log])"
proof -
  have fst_nth: "fst (log ! j) = j mod N" if "j < length log" for j
  proof -
    have "fst (log ! j) = map fst log ! j" using that by simp
    also have "\<dots> = map (\<lambda>j. j mod N) [0..<length log] ! j" by (simp only: assms)
    also have "\<dots> = j mod N" using that by simp
    finally show ?thesis .
  qed
  have "received i log = map snd (filter (\<lambda>p. fst p = i) (map (\<lambda>j. log ! j) [0..<length log]))"
    by (simp add: received_def map_nth)
  also have "\<dots> = map (\<lambda>j. snd (log ! j)) (filter (\<lambda>j. fst (log ! j) = i) [0..<length log])"
    by (simp add: filter_map comp_def)
  also have "filter (\<lambda>j. fst (log ! j) = i) [0..<length log]
           = filter (\<lambda>j. j mod N = i) [0..<length log]"
    by (rule filter_cong) (simp_all add: fst_nth)
  finally show ?thesis .
qed

subsection \<open>Bursts on a queue of connections\<close>

lemma accepted_append: "accepted (xs @ ys) = accepted xs @ accepted ys"
  by (induction xs rule: accepted.induct) simp_all

lemma closed_append: "closed (xs @ ys) = closed xs @ closed ys"
  by (induction xs rule: closed.induct) simp_all

lemma accept_conn:
  assumes q: "backlog w e = Conn c # q" and u: "accept4_usable b w"
    and nb: "nonblock_fault w c = None"
  shows "\<exists>es. acceptNonBlockingSocket e b w =
           (Inr c,
            b\<lparr>accept4Available := accept4Available b \<and> accept4_unsupported w = None\<rparr>,
            w\<lparr>backlog := (backlog w)(e := q), trace := trace w @ es\<rparr>) \<and>
          accepted es = [c] \<and> filter is_cooldown es = [] \<and> closed es = [] \<and> dispatched es = []"
proof (cases "accept4Available b")
  case False
  with q nb show ?thesis
    by - (rule exI [of _ "[SysAccept e (Inr c), SysSetNonBlocking c None]"],
       simp add: acceptNonBlockingSocket_unfold acceptPlain_def sys_accept_def dequeue_def
          setNonBlocking_def emit_def)
next
  case True
  with u consider "accept4_unsupported w = None" | "accept4_unsupported w = Some ENOSYS"
    | "accept4_unsupported w = Some EINVAL"
    by (auto simp: accept4_usable_def)
  then show ?thesis
  proof cases
    case 1
    with True q show ?thesis
      by - (rule exI [of _ "[SysAccept4 e (Inr c)]"],
       simp add: acceptNonBlockingSocket_unfold callAccept4_def dequeue_def emit_def)
  next
    case 2
    with True q nb show ?thesis
      by - (rule exI [of _ "[SysAccept4 e (Inl ENOSYS), SysAccept e (Inr c), SysSetNonBlocking c None]"],
       simp add: acceptNonBlockingSocket_unfold callAccept4_def acceptPlain_def
            sys_accept_def dequeue_def setNonBlocking_def emit_def)
  next
    case 3
    with True q nb show ?thesis
      by - (rule exI [of _ "[SysAccept4 e (Inl EINVAL), SysAccept e (Inr c), SysSetNonBlocking c None]"],
       simp add: acceptNonBlockingSocket_unfold callAccept4_def acceptPlain_def
            sys_accept_def dequeue_def setNonBlocking_def emit_def)
  qed
qed

lemma accept_empty:
  assumes q: "backlog w e = []" and u: "accept4_usable b w"
  shows "\<exists>es. acceptNonBlockingSocket e b w =
           (Inl EAGAIN,
            b\<lparr>accept4Available := accept4Available b \<and> accept4_unsupported w = None\<rparr>,
            w\<lparr>trace := trace w @ es\<rparr>) \<and>
          accepted es = [] \<and> filter is_cooldown es = [] \<and> closed es = [] \<and> dispatched es = []"
proof (cases "accept4Available b")
  case False
  with q show ?thesis
    by - (rule exI [of _ "[SysAccept e (Inl EAGAIN)]"],
       simp add: acceptNonBlockingSocket_unfold acceptPlain_def sys_accept_def dequeue_def
          emit_def)
next
  case True
  with u consider "accept4_unsupported w = None" | "accept4_unsupported w = Some ENOSYS"
    | "accept4_unsupported w = Some EINVAL"
    by (auto simp: accept4_usable_def)
  then show ?thesis
  proof cases
    case 1
    with True q show ?thesis
      by - (rule exI [of _ "[SysAccept4 e (Inl EAGAIN)]"],
       simp add: acceptNonBlockingSocket_unfold callAccept4_def dequeue_def emit_def)
  next
    case 2
    with True q show ?thesis
      by - (rule exI [of _ "[SysAccept4 e (Inl ENOSYS), SysAccept e (Inl EAGAIN)]"],
       simp add: acceptNonBlockingSocket_unfold callAccept4_def acceptPlain_def
            sys_accept_def dequeue_def emit_def)
  next
    case 3
    with True q show ?thesis
      by - (rule exI [of _ "[SysAccept4 e (Inl EINVAL), SysAccept e (Inl EAGAIN)]"],
       simp add: acceptNonBlockingSocket_unfold callAccept4_def acceptPlain_def
            sys_accept_def dequeue_def emit_def)
  qed
qed

lemma accept4_usable_mono:
  "accept4_usable b w \<Longrightarrow> (accept4Available b1 \<longrightarrow> accept4Available b) \<Longrightarrow>
   accept4_unsupported w1 = accept4_unsupported w \<Longrightarrow> accept4_usable b1 w1"
  by (auto simp: accept4_usable_def)

lemma acceptLoop_conns:
  assumes "backlog w e = map Conn cs @ q" and "accept4_usable b w"
    and "\<forall>c\<in>set cs. nonblock_fault w c = None"
    and "i + length cs \<le> ACCEPT_BURST_COUNT"
  shows "\<exists>b1 w1 es.
      acceptLoop e i b w = acceptLoop e (i + length cs) b1 w1 \<and>
      b1 = b\<lparr>accept4Available := accept4Available b1, newClients := newClients b1\<rparr> \<and>
      w1 = w\<lparr>backlog := (backlog w)(e := q), trace := trace w @ es\<rparr> \<and>
      (accept4Available b1 \<longrightarrow> accept4Available b) \<and>
      (\<forall>j. newClients b1 j =
             (if i \<le> j \<and> j < i + length cs then cs ! (j - i) else newClients b j)) \<and>
      accepted es = cs \<and> filter is_cooldown es = [] \<and> closed es = [] \<and> dispatched es = []"
  using assms
proof (induction cs arbitrary: i b w)
  case Nil
  from Nil.prems(1) have bk: "(backlog w)(e := q) = backlog w"
    by (auto simp: fun_eq_iff)
  show ?case
  proof (intro exI conjI)
    show "acceptLoop e i b w = acceptLoop e (i + length []) b w" by simp
    show "b = b\<lparr>accept4Available := accept4Available b, newClients := newClients b\<rparr>" by simp
    show "w = w\<lparr>backlog := (backlog w)(e := q), trace := trace w @ []\<rparr>"
      by (simp only: bk append_Nil2) simp
    show "accept4Available b \<longrightarrow> accept4Available b" by simp
    show "\<forall>j. newClients b j =
             (if i \<le> j \<and> j < i + length [] then [] ! (j - i) else newClients b j)"
      by simp
    show "accepted [] = []" "filter is_cooldown [] = []" "closed [] = []" "dispatched [] = []"
      by simp_all
  qed
next
  case (Cons c cs)
  let ?b0 = "b\<lparr>accept4Available := accept4Available b \<and> accept4_unsupported w = None\<rparr>"
  from Cons.prems have hd: "backlog w e = Conn c # (map Conn cs @ q)"
    and nb: "nonblock_fault w c = None" and i: "i < ACCEPT_BURST_COUNT"
    by simp_all
  from accept_conn [OF hd Cons.prems(2) nb] obtain es0 where
    a: "acceptNonBlockingSocket e b w =
          (Inr c, ?b0, w\<lparr>backlog := (backlog w)(e := map Conn cs @ q), trace := trace w @ es0\<rparr>)"
    and e0: "accepted es0 = [c]" "filter is_cooldown es0 = []" "closed es0 = []"
      "dispatched es0 = []"
    by blast
  let ?w0 = "w\<lparr>backlog := (backlog w)(e := map Conn cs @ q), trace := trace w @ es0\<rparr>"
  let ?b0' = "?b0\<lparr>newClients := (newClients ?b0)(i := c)\<rparr>"
  have unf: "acceptLoop e i b w = acceptLoop e (i + 1) ?b0' ?w0"
    using i a by (simp add: acceptLoop.simps [of e i b w])
  have p1: "backlog ?w0 e = map Conn cs @ q" by simp
  have p2: "accept4_usable ?b0' ?w0"
    using Cons.prems(2) by (auto simp: accept4_usable_def)
  have p3: "\<forall>c\<in>set cs. nonblock_fault ?w0 c = None"
    using Cons.prems(3) by simp
  have p4: "i + 1 + length cs \<le> ACCEPT_BURST_COUNT"
    using Cons.prems(4) by simp
  from Cons.IH [OF p1 p2 p3 p4] obtain b1 w1 es where
    l: "acceptLoop e (i + 1) ?b0' ?w0 = acceptLoop e (i + 1 + length cs) b1 w1"
    and b1: "b1 = ?b0'\<lparr>accept4Available := accept4Available b1, newClients := newClients b1\<rparr>"
    and w1: "w1 = ?w0\<lparr>backlog := (backlog ?w0)(e := q), trace := trace ?w0 @ es\<rparr>"
    and fl: "accept4Available b1 \<longrightarrow> accept4Available ?b0'"
    and nc: "\<forall>j. newClients b1 j =
               (if i + 1 \<le> j \<and> j < i + 1 + length cs then cs ! (j - (i + 1))
                else newClients ?b0' j)"
    and es: "accepted es = cs" "filter is_cooldown es = []" "closed es = []" "dispatched es = []"
    by blast
  have g1: "acceptLoop e i b w = acceptLoop e (i + length (c # cs)) b1 w1"
    using unf l by simp
  have g2: "b1 = b\<lparr>accept4Available := accept4Available b1, newClients := newClients b1\<rparr>"
    by (subst b1) simp
  have g3: "w1 = w\<lparr>backlog := (backlog w)(e := q), trace := trace w @ (es0 @ es)\<rparr>"
    by (subst w1) simp
  have g4: "accept4Available b1 \<longrightarrow> accept4Available b"
    using fl by simp
  have g5: "newClients b1 j =
      (if i \<le> j \<and> j < i + length (c # cs) then (c # cs) ! (j - i) else newClients b j)" for j
  proof (cases "j = i")
    case True
    then show ?thesis using nc by simp
  next
    case False
    show ?thesis
    proof (cases "i + 1 \<le> j \<and> j < i + 1 + length cs")
      case True
      then have "j - i = Suc (j - (i + 1))" by linarith
      with True nc show ?thesis by simp
    next
      case out: False
      with False nc show ?thesis by auto
    qed
  qed
  have g6: "accepted (es0 @ es) = c # cs" "filter is_cooldown (es0 @ es) = []"
    "closed (es0 @ es) = []" "dispatched (es0 @ es) = []"
    using e0 es by (simp_all add: accepted_append closed_append dispatched_append)
  from g1 g2 g3 g4 g5 g6 show ?case by blast
qed

subsection \<open>Accepting logs no error and does not wait\<close>

lemma beside_burst_eq:
  "beside_burst b' = beside_burst b \<Longrightarrow>
     b' = b\<lparr>accept4Available := accept4Available b', newClients := newClients b'\<rparr>"
  by (cases b, cases b') (simp add: beside_burst_def)

lemma quiet_refl: "quiet s s"
  by (simp add: quiet_def)

lemma quiet_trans:
  assumes "quiet s t" and "quiet t u"
  shows "quiet s u"
proof -
  from assms obtain es1 es2 where
    "trace (snd t) = trace (snd s) @ es1" "filter is_cooldown es1 = []"
    "trace (snd u) = trace (snd t) @ es2" "filter is_cooldown es2 = []"
    by (auto simp: quiet_def)
  then have "trace (snd u) = trace (snd s) @ (es1 @ es2) \<and> filter is_cooldown (es1 @ es2) = []"
    by simp
  then have "\<exists>es. trace (snd u) = trace (snd s) @ es \<and> filter is_cooldown es = []"
    by blast
  with assms show ?thesis by (simp add: quiet_def)
qed

lemma quiet_acceptNonBlockingSocket:
  "acceptNonBlockingSocket e b w = (r, b', w') \<Longrightarrow> quiet (b, w) (b', w')"
  by (auto simp: acceptNonBlockingSocket_unfold acceptPlain_def quiet_def beside_burst_def
           split: if_splits prod.splits sum.splits option.splits
           dest!: trace_callAccept4 trace_sys_accept trace_setNonBlocking)

lemma quiet_acceptLoop:
  "acceptLoop e i b w = (j, err, b', w') \<Longrightarrow> quiet (b, w) (b', w')"
proof (erule acceptLoop_rel [rotated -1])
  show "quiet (b, w) (b\<lparr>newClients := (newClients b)(i := c)\<rparr>, w)" for b w i c
    by (simp add: quiet_def beside_burst_def)
qed (auto intro: quiet_acceptNonBlockingSocket quiet_refl quiet_trans)

subsection \<open>The cooldown wait\<close>

lemma cooldown_poll:
  "\<exists>ps' w3.
     sys_poll ps 1 3 w2 = ((if control_fires w2 then Some (Inr 1) else
                             (case poll_script w2 of Inl x # rest \<Rightarrow> Some (Inl x)
                                                   | _ \<Rightarrow> Some (Inr 0))), ps', w3) \<and>
     trace w3 = trace w2 @ [SysPoll [fd (ps 0)] 3] \<and> backlog w3 = backlog w2"
proof (cases "poll_script w2")
  case Nil
  then show ?thesis
    by (simp add: sys_poll_def control_fires_def emit_def)
next
  case (Cons r rest)
  show ?thesis
  proof (cases r)
    case (Inl x)
    with Cons show ?thesis
      by (simp add: sys_poll_def control_fires_def emit_def)
  next
    case (Inr rs)
    show ?thesis
    proof (cases rs)
      case Nil
      with Cons Inr show ?thesis
        by (simp add: sys_poll_def control_fires_def emit_def ready_count_def set_revents_def)
    next
      case (Cons r0 rs')
      with \<open>poll_script w2 = r # rest\<close> Inr show ?thesis
        by (simp add: sys_poll_def control_fires_def emit_def ready_count_def set_revents_def)
    qed
  qed
qed

subsection \<open>The capability flag follows the accept4 calls\<close>

lemma refusal_is_accept4: "is_refusal ev \<Longrightarrow> is_accept4 ev"
  by (induction ev rule: is_refusal.induct) simp_all

lemma no_accept4_no_refusal: "filter is_accept4 es = [] \<Longrightarrow> filter is_refusal es = []"
  by (auto simp: filter_empty_conv dest: refusal_is_accept4)

lemma flag_follows_same:
  assumes "accept4Available b' = accept4Available b" and "trace w' = trace w @ es"
    and "filter is_accept4 es = []"
  shows "flag_follows (b, w) (b', w')"
  unfolding flag_follows_def
  using assms no_accept4_no_refusal [OF assms(3)] by auto

lemma flag_follows_refl: "flag_follows s s"
  by (simp add: flag_follows_def)

lemma flag_follows_trans:
  assumes "flag_follows s t" and "flag_follows t u"
  shows "flag_follows s u"
proof -
  from assms(1) obtain es1 where
    1: "trace (snd t) = trace (snd s) @ es1"
    "accept4Available (fst t) \<longleftrightarrow> accept4Available (fst s) \<and> filter is_refusal es1 = []"
    "\<not> accept4Available (fst s) \<longrightarrow> filter is_accept4 es1 = []"
    by (auto simp: flag_follows_def)
  from assms(2) obtain es2 where
    2: "trace (snd u) = trace (snd t) @ es2"
    "accept4Available (fst u) \<longleftrightarrow> accept4Available (fst t) \<and> filter is_refusal es2 = []"
    "\<not> accept4Available (fst t) \<longrightarrow> filter is_accept4 es2 = []"
    by (auto simp: flag_follows_def)
  have a: "trace (snd u) = trace (snd s) @ (es1 @ es2)"
    using 1(1) 2(1) by simp
  have b: "accept4Available (fst u) \<longleftrightarrow>
             accept4Available (fst s) \<and> filter is_refusal (es1 @ es2) = []"
    using 1(2) 2(2) by auto
  have c: "\<not> accept4Available (fst s) \<longrightarrow> filter is_accept4 (es1 @ es2) = []"
    using 1(2,3) 2(3) by auto
  from a b c show ?thesis
    unfolding flag_follows_def by blast
qed

lemma plain_trace:
  "acceptPlain d w = (r, w') \<Longrightarrow> \<exists>es. trace w' = trace w @ es \<and> filter is_accept4 es = []"
  by (auto simp: acceptPlain_def split: prod.splits sum.splits option.splits
           dest!: trace_sys_accept trace_setNonBlocking)

lemma flag_follows_acceptNonBlockingSocket:
  assumes "acceptNonBlockingSocket e b w = (r, b', w')"
  shows "flag_follows (b, w) (b', w')"
proof (cases "accept4Available b")
  case False
  obtain r1 w1 where p: "acceptPlain e w = (r1, w1)"
    by (cases "acceptPlain e w") auto
  from plain_trace [OF p] obtain es where
    es: "trace w1 = trace w @ es" "filter is_accept4 es = []" by blast
  from assms False p have "b' = b" and "w' = w1"
    by (simp_all add: acceptNonBlockingSocket_unfold)
  with es show ?thesis
    by (auto intro: flag_follows_same)
next
  case True
  obtain x w1 where c: "callAccept4 e w = (x, w1)"
    by (cases "callAccept4 e w") auto
  note t1 = trace_callAccept4 [OF c]
  show ?thesis
  proof (cases "x = Inl ENOSYS \<or> x = Inl EINVAL")
    case no: False
    with assms True c have eq: "b' = b" "w' = w1"
      by (simp_all add: acceptNonBlockingSocket_unfold)
    from no have "\<not> is_refusal (SysAccept4 e x)"
      by (cases "SysAccept4 e x" rule: is_refusal.cases) auto
    with True t1 eq show ?thesis
      unfolding flag_follows_def by (intro exI [of _ "[SysAccept4 e x]"]) simp
  next
    case yes: True
    obtain r2 w2 where p: "acceptPlain e w1 = (r2, w2)"
      by (cases "acceptPlain e w1") auto
    from plain_trace [OF p] obtain es where
      es: "trace w2 = trace w1 @ es" "filter is_accept4 es = []" by blast
    from assms True c yes p have eq: "b' = b\<lparr>accept4Available := False\<rparr>" "w' = w2"
      by (auto simp: acceptNonBlockingSocket_unfold)
    from yes have "is_refusal (SysAccept4 e x)" by auto
    with True t1 es eq show ?thesis
      unfolding flag_follows_def by (intro exI [of _ "SysAccept4 e x # es"]) simp
  qed
qed

lemma flag_follows_acceptLoop:
  "acceptLoop e i b w = (j, err, b', w') \<Longrightarrow> flag_follows (b, w) (b', w')"
proof (erule acceptLoop_rel [rotated -1])
  show "flag_follows (b, w) (b\<lparr>newClients := (newClients b)(i := c)\<rparr>, w)" for b w i c
    by (simp add: flag_follows_def)
qed (auto intro: flag_follows_acceptNonBlockingSocket flag_follows_refl flag_follows_trans)

lemma poll_trace:
  "sys_poll ps n t w = (r, ps', w') \<Longrightarrow>
     \<exists>es. trace w' = trace w @ es \<and> filter is_accept4 es = []"
  by (auto simp: sys_poll_def Let_def split: list.splits if_splits sum.splits)

lemma flag_follows_acceptNewClients:
  assumes "acceptNewClients e b w = (ok, b', w')"
  shows "flag_follows (b, w) (b', w')"
proof -
  obtain i err b1 w1 where l: "acceptLoop e 0 b w = (i, err, b1, w1)"
    by (cases "acceptLoop e 0 b w") auto
  have k1: "flag_follows (b, w) (b1, w1)"
    using l by (rule flag_follows_acceptLoop)
  obtain r ps' w3 where
    p: "sys_poll ((pollers b1)(0 := (pollers b1 0)\<lparr>fd := fst (exitPipe b1), events := POLLIN\<rparr>))
          1 3 (emit (LogError (the err)) w1) = (r, ps', w3)"
    using prod_cases3 by blast
  from poll_trace [OF p] obtain es where
    es: "trace w3 = trace w1 @ LogError (the err) # es" "filter is_accept4 es = []"
    by auto
  have same: "flag_follows (b1, w1) (b', w')"
  proof (cases err)
    case None
    with assms l show ?thesis
      by (auto simp: acceptNewClients_def intro: flag_follows_same [where es = "[]"])
  next
    case (Some errcode)
    show ?thesis
    proof (cases "errcode \<noteq> EAGAIN \<and> errcode \<noteq> EWOULDBLOCK")
      case False
      with assms l Some show ?thesis
        by (auto simp: acceptNewClients_def intro: flag_follows_same [where es = "[]"])
    next
      case True
      show ?thesis
      proof (cases "r = Some (Inr 1)")
        case fired: True
        with assms l Some True p
        have "accept4Available b' = accept4Available b1" and "w' = w3"
          by (auto simp: acceptNewClients_def Let_def)
        with es show ?thesis
          by (auto intro: flag_follows_same [where es = "LogError (the err) # es"])
      next
        case False
        with assms l Some True p
        have "accept4Available b' = accept4Available b1" and "w' = emit LogNotice w3"
          by (auto simp: acceptNewClients_def Let_def)
        with es show ?thesis
          by (auto intro: flag_follows_same [where es = "LogError (the err) # es @ [LogNotice]"])
      qed
    qed
  qed
  from k1 same show ?thesis by (rule flag_follows_trans)
qed

lemma flag_follows_scanEndpoints:
  "scanEndpoints i b w = (b', w') \<Longrightarrow> flag_follows (b, w) (b', w')"
  by (erule scanEndpoints_rel [rotated -1])
     (auto intro: flag_follows_acceptNewClients flag_follows_refl flag_follows_trans)

lemma flag_follows_pollAllEndpoints:
  assumes "pollAllEndpoints b w = (out, b', w')"
  shows "flag_follows (b, w) (b', w')"
proof -
  let ?ps0 = "(pollers b)(0 := (pollers b 0)\<lparr>fd := fst (exitPipe b), events := POLLIN\<rparr>)"
  let ?ps = "fold (\<lambda>i p. p(i + 1 := (p (i + 1))\<lparr>fd := endpoints b i, events := POLLIN\<rparr>))
                 [0..<unat (nEndpoints b)] ?ps0"
  obtain r ps' w1 where p: "sys_poll ?ps (unat (nEndpoints b) + 1) (- 1) w = (r, ps', w1)"
    using prod_cases3 by blast
  from poll_trace [OF p] obtain es where
    es: "trace w1 = trace w @ es" "filter is_accept4 es = []" by blast
  from assms p have "accept4Available b' = accept4Available b" and "w' = w1"
    by (auto simp: pollAllEndpoints_def Let_def split: option.splits sum.splits)
  with es show ?thesis by (auto intro: flag_follows_same)
qed

lemma flag_follows_distributeLoop:
  "distributeLoop i b w = (out, b', w') \<Longrightarrow> flag_follows (b, w) (b', w')"
proof (induction i b w rule: distributeLoop.induct)
  case (1 i b w)
  show ?case
  proof (cases "i < unat (newClientCount b) \<and> unat (nextServer b) < length (servers b)")
    case False
    with "1.prems" show ?thesis
      by (auto simp: distributeLoop.simps [of i b w] flag_follows_refl split: if_splits)
  next
    case True
    let ?b1 = "b\<lparr>nextServer := word_of_nat (unat (nextServer b + 1) mod length (servers b))\<rparr>"
    let ?w1 = "emit (RunLater (unat (nextServer b)) (newClients b i)) w"
    have s: "flag_follows (b, w) (?b1, ?w1)"
      by (rule flag_follows_same [where es = "[RunLater (unat (nextServer b)) (newClients b i)]"])
         simp_all
    from True "1.prems" have "distributeLoop (i + 1) ?b1 ?w1 = (out, b', w')"
      by (simp add: distributeLoop.simps [of i b w])
    with "1.IH" True have "flag_follows (?b1, ?w1) (b', w')" by simp
    with s show ?thesis by (rule flag_follows_trans)
  qed
qed

lemma flag_follows_distributeNewClients:
  assumes "distributeNewClients b w = (out, b', w')"
  shows "flag_follows (b, w) (b', w')"
proof -
  obtain o1 b1 w1 where d: "distributeLoop 0 b w = (o1, b1, w1)"
    by (cases "distributeLoop 0 b w") auto
  note f = flag_follows_distributeLoop [OF d]
  have "flag_follows (b1, w1) (b1\<lparr>newClientCount := 0\<rparr>, w1)"
    by (simp add: flag_follows_def)
  with f have "flag_follows (b, w) (b1\<lparr>newClientCount := 0\<rparr>, w1)"
    by (rule flag_follows_trans)
  with assms d f show ?thesis
    by (cases o1) (auto simp: distributeNewClients_def)
qed

lemma flag_follows_mainLoopIteration:
  assumes "mainLoopIteration b w = (c, b', w')"
  shows "flag_follows (b, w) (b', w')"
proof -
  obtain o1 b1 w1 where p: "pollAllEndpoints b w = (o1, b1, w1)"
    by (cases "pollAllEndpoints b w") auto
  obtain b2 w2 where s: "scanEndpoints 0 b1 w1 = (b2, w2)"
    by (cases "scanEndpoints 0 b1 w1") auto
  obtain o3 b3 w3 where d: "distributeNewClients b2 w2 = (o3, b3, w3)"
    by (cases "distributeNewClients b2 w2") auto
  note f1 = flag_follows_pollAllEndpoints [OF p]
  note f2 = flag_follows_trans [OF f1 flag_follows_scanEndpoints [OF s]]
  note f3 = flag_follows_trans [OF f2 flag_follows_distributeNewClients [OF d]]
  have "flag_follows (b1, w1) (b1\<lparr>quit := True\<rparr>, w1)"
    by (simp add: flag_follows_def)
  with f1 have fq: "flag_follows (b, w) (b1\<lparr>quit := True\<rparr>, w1)"
    by (rule flag_follows_trans)
  from assms p s d f1 f3 fq show ?thesis
    by (cases o1; cases o3) (auto simp: mainLoopIteration_def split: if_splits)
qed

lemma flag_follows_mainLoop:
  "mainLoop b w = (out, b', w') \<Longrightarrow> flag_follows (b, w) (b', w')"
  by (erule mainLoop_rel [rotated -1])
     (auto intro: flag_follows_mainLoopIteration flag_follows_refl flag_follows_trans)

subsection \<open>The retry through the plain branch\<close>

lemma dequeue_keeps:
  "dequeue d w = (a, w') \<Longrightarrow> trace w' = trace w \<and> nonblock_fault w' = nonblock_fault w"
  by (auto simp: dequeue_def split: list.splits accept_event.splits)

lemma callAccept4_keeps:
  "callAccept4 d w = (x, w') \<Longrightarrow>
     trace w' = trace w @ [SysAccept4 d x] \<and> nonblock_fault w' = nonblock_fault w"
  by (auto simp: callAccept4_def split: option.splits prod.splits dest: dequeue_keeps)

lemma retry_plain:
  assumes flag: "accept4Available b" and c: "callAccept4 e w = (x, w1)"
    and x: "x = Inl ENOSYS \<or> x = Inl EINVAL" and q: "dequeue e w1 = (a, w2)"
  shows "acceptNonBlockingSocket e b w =
     ((case a of
         Inl err \<Rightarrow> Inl err
       | Inr c \<Rightarrow> (case nonblock_fault w c of None \<Rightarrow> Inr c | Some err \<Rightarrow> Inl err)),
      b\<lparr>accept4Available := False\<rparr>,
      w2\<lparr>trace := trace w @ SysAccept4 e x # SysAccept e a #
           (case a of
              Inl err \<Rightarrow> []
            | Inr c \<Rightarrow>
                SysSetNonBlocking c (nonblock_fault w c) #
                (case nonblock_fault w c of
                   None \<Rightarrow> []
                 | Some err \<Rightarrow> [LogDebug err, SysClose c]))\<rparr>)"
proof -
  from callAccept4_keeps [OF c] dequeue_keeps [OF q]
  have t: "trace w2 = trace w @ [SysAccept4 e x]" and n: "nonblock_fault w2 = nonblock_fault w"
    by simp_all
  show ?thesis
  proof (cases a)
    case (Inl err)
    with flag c x q t show ?thesis
      by (auto simp: acceptNonBlockingSocket_unfold acceptPlain_def sys_accept_def emit_def)
  next
    case (Inr cfd)
    show ?thesis
    proof (cases "nonblock_fault w cfd")
      case None
      with Inr flag c x q t n show ?thesis
        by (auto simp: acceptNonBlockingSocket_unfold acceptPlain_def sys_accept_def
              setNonBlocking_def emit_def)
    next
      case (Some err)
      with Inr flag c x q t n show ?thesis
        by (auto simp: acceptNonBlockingSocket_unfold acceptPlain_def sys_accept_def
              setNonBlocking_def emit_def)
    qed
  qed
qed

lemma flag_follows_clear:
  assumes "flag_follows (b, w) (b', w')" and "\<not> accept4Available b"
  shows "\<not> accept4Available b' \<and> filter is_accept4 (trace w') = filter is_accept4 (trace w)"
  using assms by (auto simp: flag_follows_def)

subsection \<open>The loop returns with the quit flag set\<close>

lemma mainLoopIteration_Break:
  "mainLoopIteration b w = (Break, b', w') \<Longrightarrow> quit b'"
  by (auto simp: mainLoopIteration_def split: prod.splits outcome.splits if_splits)

lemma mainLoop_Done_quit:
  "mainLoop b w = (Done, b', w') \<Longrightarrow> quit b'"
proof (induction b w rule: mainLoop.induct)
  case (1 b w)
  show ?case
  proof (cases "quit b")
    case True
    with "1.prems" show ?thesis by (simp add: mainLoop.simps [of b w])
  next
    case False
    obtain c b1 w1 where a: "mainLoopIteration b w = (c, b1, w1)"
      by (cases "mainLoopIteration b w") auto
    show ?thesis
    proof (cases c)
      case Next
      with "1.prems" False a have "mainLoop b1 w1 = (Done, b', w')"
        by (simp add: mainLoop.simps [of b w])
      then show ?thesis
        using "1.IH" False a Next by simp
    next
      case Break
      with "1.prems" False a mainLoopIteration_Break [of b w b1 w1] show ?thesis
        by (simp add: mainLoop.simps [of b w])
    next
      case (Raise e)
      with "1.prems" False a show ?thesis by (simp add: mainLoop.simps [of b w])
    next
      case Hang
      with "1.prems" False a show ?thesis by (simp add: mainLoop.simps [of b w])
    qed
  qed
qed

subsection \<open>The assertion of listen\<close>

text \<open>
  Two bits hold 0 to 3: with a capacity of 4 or more the assertion of \<^verbatim>\<open>listen\<close>
  cannot fail.
\<close>

lemma listen_never_asserts:
  "4 \<le> m \<Longrightarrow> fst (listen m d b w) \<noteq> Threw AssertionFailed"
proof -
  assume m: "4 \<le> m"
  have "unat (nEndpoints b) < 2 ^ LENGTH(2)" by (rule unsigned_less)
  then have "unat (nEndpoints b) < m" using m by simp
  then show ?thesis
    by (simp add: listen_def split: prod.splits option.splits)
qed

text \<open>
  With a capacity of at most 3 the counter does not wrap: below capacity a registration
  adds the descriptor and counts it, at capacity the assertion fails.
\<close>

lemma listen_small_capacity:
  assumes "cap \<le> 3"
  shows "(unat (nEndpoints b) < cap \<and> nonblock_fault w d = None \<longrightarrow>
            listen cap d b w =
              (Done,
               b\<lparr>endpoints := (endpoints b)(unat (nEndpoints b) := d),
                 nEndpoints := nEndpoints b + 1\<rparr>,
               w\<lparr>trace := trace w @ [SysSetNonBlocking d None]\<rparr>) \<and>
            unat (nEndpoints b + 1) = unat (nEndpoints b) + 1) \<and>
         (\<not> unat (nEndpoints b) < cap \<longrightarrow> listen cap d b w = (Threw AssertionFailed, b, w))"
proof -
  have "unat (nEndpoints b + 1) = unat (nEndpoints b) + 1" if "unat (nEndpoints b) < cap"
  proof -
    from that assms have "unat (nEndpoints b) + 1 < 2 ^ LENGTH(2)" by simp
    then show ?thesis by (simp add: unat_word_ariths)
  qed
  then show ?thesis
    by (simp add: listen_def setNonBlocking_def emit_def)
qed

subsection \<open>A full burst records the count 0\<close>

text \<open>
  Whenever 16 connections can be taken from the queue, the burst accepts them, records
  the count 0, and the distribution that follows hands over nothing.
\<close>

lemma full_burst_records_zero:
  assumes pend: "backlog w e = map Conn cs @ q" and full: "length cs = ACCEPT_BURST_COUNT"
    and use: "accept4_usable b w" and nb: "\<forall>c\<in>set cs. nonblock_fault w c = None"
  shows "\<exists>b' w' es.
           acceptNewClients e b w = (True, b', w') \<and>
           newClientCount b' = 0 \<and>
           trace w' = trace w @ es \<and> accepted es = cs \<and> closed es = [] \<and>
           backlog w' e = q \<and>
           distributeNewClients b' w' = (Done, b', w')"
proof -
  from full have le: "0 + length cs \<le> ACCEPT_BURST_COUNT" by simp
  from acceptLoop_conns [OF pend use nb le] obtain b1 w1 es where
    l: "acceptLoop e 0 b w = acceptLoop e (length cs) b1 w1"
    and w1: "w1 = w\<lparr>backlog := (backlog w)(e := q), trace := trace w @ es\<rparr>"
    and es: "accepted es = cs" "closed es = []"
    by auto
  have "acceptLoop e 0 b w = (ACCEPT_BURST_COUNT, None, b1, w1)"
    using l full by (simp add: acceptLoop.simps [of e ACCEPT_BURST_COUNT b1 w1])
  then have res: "acceptNewClients e b w =
      (True, b1\<lparr>newClientCount := word_of_nat ACCEPT_BURST_COUNT\<rparr>, w1)"
    by (simp add: acceptNewClients_def)
  have z: "(word_of_nat ACCEPT_BURST_COUNT :: 4 word) = 0"
    by (simp add: ACCEPT_BURST_COUNT_def)
  let ?b' = "b1\<lparr>newClientCount := 0\<rparr>"
  have d: "distributeNewClients ?b' w1 = (Done, ?b', w1)"
    by (simp add: distributeNewClients_def distributeLoop.simps [of 0 ?b' w1])
  have t: "trace w1 = trace w @ es" and k: "backlog w1 e = q"
    by (subst w1, simp)+
  from res z d t k es show ?thesis by auto
qed

section \<open>The claims\<close>

subsection \<open>Bursts of several endpoints in one pass\<close>

text \<open>
  C1. Every descriptor accepted in a pass of the main loop should be handed to exactly
  one server by the distribution that ends the pass, also when several endpoints are
  readable. The code does not achieve that: \<^verbatim>\<open>acceptNewClients\<close> fills
  \<^verbatim>\<open>newClients\<close> from index 0 and overwrites \<^verbatim>\<open>newClientCount\<close> for every
  endpoint it is called on, and \<^verbatim>\<open>distributeNewClients\<close> runs once, after the scan.
  In the run below two endpoints (descriptors 7 and 8) are readable in the same pass, with
  one pending connection each. Both connections are accepted (10, then 11); only 11 is
  handed to a server; 10 is neither handed over nor closed.
\<close>

theorem overlapping_bursts_lose_connections:
  "fst (mainLoop pair_balancer pair_world) = Done \<and>
   accepted (trace (snd (snd (mainLoop pair_balancer pair_world)))) = [10, 11] \<and>
   dispatched (trace (snd (snd (mainLoop pair_balancer pair_world)))) = [(0, 11)] \<and>
   closed (trace (snd (snd (mainLoop pair_balancer pair_world)))) = []"
  by code_simp

subsection \<open>A full burst\<close>

text \<open>
  C2. With 16 or more connections pending, a burst accepts 16 of them and should record
  the count 16, so that all 16 are distributed. \<^verbatim>\<open>newClientCount\<close> is a bit field of
  4 bits: storing 16 leaves 0. In the run below 17 connections are pending on endpoint 7.
  The first burst accepts 10, ..., 25 and leaves \<^verbatim>\<open>newClientCount\<close> at 0, so the
  distribution of that pass hands over nothing. The second pass accepts and hands over the
  remaining connection, 26. When the loop ends, the 16 descriptors of the first burst have
  been neither handed over nor closed.
\<close>

theorem full_burst_count_wraps_to_zero:
  "fst (acceptNewClients 7 demo_balancer flood_world) \<and>
   newClientCount (fst (snd (acceptNewClients 7 demo_balancer flood_world))) = 0 \<and>
   accepted (trace (snd (snd (acceptNewClients 7 demo_balancer flood_world)))) =
     [10, 11, 12, 13, 14, 15, 16, 17, 18, 19, 20, 21, 22, 23, 24, 25] \<and>
   fst (mainLoop demo_balancer flood_world) = Done \<and>
   accepted (trace (snd (snd (mainLoop demo_balancer flood_world)))) =
     [10, 11, 12, 13, 14, 15, 16, 17, 18, 19, 20, 21, 22, 23, 24, 25, 26] \<and>
   dispatched (trace (snd (snd (mainLoop demo_balancer flood_world)))) = [(0, 26)] \<and>
   closed (trace (snd (snd (mainLoop demo_balancer flood_world)))) = []"
  by code_simp

subsection \<open>Round-robin placement\<close>

text \<open>
  C3. Take a run of the main loop on \<open>N\<close> servers, \<open>1 \<le> N\<close>, with \<open>N\<close> within the
  range of the \<^verbatim>\<open>unsigned int\<close> cursor, the cursor at 0 and nothing handed over yet.
  The world (which endpoints are readable in which pass, what each accept returns) is
  arbitrary, so the connections are split over endpoints and passes in any way, and the
  run may end in any way. With \<open>K\<close> the number of hand-offs made: server \<open>i\<close> has received
  exactly the connections at the positions \<open>i, i + N, i + 2N, \<dots>\<close> of the \<open>K\<close>, in that order;
  the cursor is \<open>K mod N\<close>, hence below \<open>N\<close>; the vector of servers is unchanged and no
  access outside it has happened. The last part is one distribution: from a cursor
  \<open>c < N\<close>, a buffer of \<open>n\<close> descriptors goes, in buffer order, to the servers
  \<open>c, c + 1, \<dots>\<close> (modulo \<open>N\<close>), and the cursor ends at \<open>(c + n) mod N\<close>.
\<close>

theorem round_robin_fairness:
  assumes N: "1 \<le> length (servers b)" "length (servers b) \<le> 2 ^ 32"
    and start: "nextServer b = 0" "dispatched (trace w) = []"
    and run: "mainLoop b w = (out, b', w')"
  shows "(\<forall>i. received i (dispatched (trace w')) =
            map (\<lambda>j. snd (dispatched (trace w') ! j))
              (filter (\<lambda>j. j mod length (servers b) = i) [0..<length (dispatched (trace w'))])) \<and>
         unat (nextServer b') = length (dispatched (trace w')) mod length (servers b) \<and>
         unat (nextServer b') < length (servers b) \<and>
         servers b' = servers b \<and>
         out \<noteq> Threw UndefinedBehaviour \<and>
         (\<forall>bb ww. servers bb = servers b \<and> unat (nextServer bb) < length (servers b) \<longrightarrow>
            distributeNewClients bb ww =
              (Done,
               bb\<lparr>nextServer :=
                    word_of_nat ((unat (nextServer bb) + unat (newClientCount bb))
                                   mod length (servers b)),
                  newClientCount := 0\<rparr>,
               ww\<lparr>trace := trace ww @
                    map (\<lambda>j. RunLater ((unat (nextServer bb) + j) mod length (servers b))
                                        (newClients bb j))
                        [0..<unat (newClientCount bb)]\<rparr>))"
proof -
  let ?N = "length (servers b)"
  let ?I = "\<lambda>s. rotation_inv s \<and> servers (fst s) = servers b"
  have step: "?I (b1, w1) \<and> c \<noteq> Raise UndefinedBehaviour"
    if "?I (b0, w0)" and "mainLoopIteration b0 w0 = (c, b1, w1)" for b0 w0 c b1 w1
  proof -
    from that(1) have eq: "servers b0 = servers b" by simp
    have "0 < length (servers b0)" and "length (servers b0) \<le> 2 ^ 32"
      unfolding eq using N by linarith+
    from rotation_inv_mainLoopIteration [OF _ this that(2)] that(1) show ?thesis
      by simp
  qed
  have init: "?I (b, w)"
    using start by (simp add: rotation_inv_def)
  from mainLoop_inv [where I = ?I, OF step init run]
  have inv: "rotation_inv (b', w')" and srv: "servers b' = servers b"
    and out: "out \<noteq> Threw UndefinedBehaviour"
    by simp_all
  from inv srv have cur: "unat (nextServer b') = length (dispatched (trace w')) mod ?N"
    and fsts: "map fst (dispatched (trace w')) =
                 map (\<lambda>j. j mod ?N) [0..<length (dispatched (trace w'))]"
    by (simp_all add: rotation_inv_def)
  have "0 < ?N" using N(1) by linarith
  then have lt: "unat (nextServer b') < ?N" unfolding cur by (rule mod_less_divisor)
  have pos: "received i (dispatched (trace w')) =
            map (\<lambda>j. snd (dispatched (trace w') ! j))
              (filter (\<lambda>j. j mod ?N = i) [0..<length (dispatched (trace w'))])" for i
    using fsts by (rule received_positions)
  have burst: "distributeNewClients bb ww =
              (Done,
               bb\<lparr>nextServer :=
                    word_of_nat ((unat (nextServer bb) + unat (newClientCount bb)) mod ?N),
                  newClientCount := 0\<rparr>,
               ww\<lparr>trace := trace ww @
                    map (\<lambda>j. RunLater ((unat (nextServer bb) + j) mod ?N) (newClients bb j))
                        [0..<unat (newClientCount bb)]\<rparr>)"
    if "servers bb = servers b \<and> unat (nextServer bb) < ?N" for bb ww
    using distributeNewClients_run [of bb ww] that N by simp
  from pos cur lt srv out burst show ?thesis by blast
qed

theorem round_robin_fairness_witness:
  "1 \<le> length (servers demo_balancer) \<and> length (servers demo_balancer) \<le> 2 ^ 32 \<and>
   nextServer demo_balancer = 0 \<and> dispatched (trace demo_world) = [] \<and>
   dispatched (trace (snd (snd (mainLoop demo_balancer demo_world)))) =
     [(0, 10), (1, 11), (0, 12)] \<and>
   received 0 (dispatched (trace (snd (snd (mainLoop demo_balancer demo_world))))) = [10, 12] \<and>
   received 1 (dispatched (trace (snd (snd (mainLoop demo_balancer demo_world))))) = [11] \<and>
   unat (nextServer (fst (snd (mainLoop demo_balancer demo_world)))) = 1"
proof -
  have h1: "1 \<le> length (servers demo_balancer)"
    and h2: "length (servers demo_balancer) \<le> 2 ^ 32"
    and h3: "nextServer demo_balancer = 0"
    and h4: "dispatched (trace demo_world) = []"
    by (simp_all add: demo_balancer_def demo_world_def blank_balancer_def blank_world_def)
  have run: "mainLoop demo_balancer demo_world =
      (fst (mainLoop demo_balancer demo_world), fst (snd (mainLoop demo_balancer demo_world)),
       snd (snd (mainLoop demo_balancer demo_world)))"
    by simp
  have d: "dispatched (trace (snd (snd (mainLoop demo_balancer demo_world)))) =
     [(0, 10), (1, 11), (0, 12)]"
    by code_simp
  have n: "length (servers demo_balancer) = 2"
    by (simp add: demo_balancer_def)
  have u: "[0..<3] = [0, 1, 2]" by code_simp
  from round_robin_fairness [OF h1 h2 h3 h4 run] d n u h1 h2 h3 h4 show ?thesis
    by simp
qed

subsection \<open>Registration at capacity\<close>

text \<open>
  C4. \<^verbatim>\<open>listen\<close> should fail its assertion when the registry is full, and add one
  endpoint otherwise. \<^verbatim>\<open>nEndpoints\<close> is a bit field of 2 bits. With the capacity 4,
  on an object that holds three endpoints: the fourth registration returns normally and
  the count wraps from 3 to 0 instead of reaching 4; the count is then below 4 again, so
  a fifth registration returns normally too, where the assertion should have failed.
\<close>

theorem listen_wraps_at_capacity_four:
  "fst (registered 4 [5, 6, 7]) = Done \<and>
   nEndpoints (fst (snd (registered 4 [5, 6, 7]))) = 3 \<and>
   fst (registered 4 [5, 6, 7, 8]) = Done \<and>
   nEndpoints (fst (snd (registered 4 [5, 6, 7, 8]))) = 0 \<and>
   fst (registered 4 [5, 6, 7, 8, 9]) = Done \<and>
   nEndpoints (fst (snd (registered 4 [5, 6, 7, 8, 9]))) = 1 \<and>
   endpoints (fst (snd (registered 4 [5, 6, 7, 8, 9]))) 0 = 9"
  by code_simp

subsection \<open>Cooldown after a failed accept\<close>

text \<open>
  C5. Let the accept loop of a burst end with the error \<open>errcode\<close>, neither
  \<^verbatim>\<open>EAGAIN\<close> nor \<^verbatim>\<open>EWOULDBLOCK\<close>; the loop leaves at the first failed accept, so
  a burst has one failing accept at most. Then \<^verbatim>\<open>acceptNewClients\<close> returns false.
  Up to the failure it has logged no error and made no \<^verbatim>\<open>poll\<close> call. After it, it
  does exactly this: it logs the error, makes one \<^verbatim>\<open>poll\<close> call with timeout 3 on
  the read end of the exit pipe alone, and logs the notice unless that wait reported the
  pipe. The quit flag is set if and only if the wait reported the pipe (a flag that was
  set stays set). The burst buffer holds the descriptors accepted before the failure.
\<close>

theorem cooldown_once_per_failing_burst:
  assumes loop: "acceptLoop e 0 b w = (i, Some errcode, b1, w1)"
    and other: "errcode \<noteq> EAGAIN" "errcode \<noteq> EWOULDBLOCK"
  shows "\<exists>b' w' es.
     acceptNewClients e b w = (False, b', w') \<and>
     trace w1 = trace w @ es \<and> filter is_cooldown es = [] \<and>
     trace w' = trace w1 @ [LogError errcode, SysPoll [fst (exitPipe b)] 3] @
                  (if control_fires w1 then [] else [LogNotice]) \<and>
     quit b' = (quit b \<or> control_fires w1) \<and>
     newClientCount b' = word_of_nat i \<and> backlog w' = backlog w1"
proof -
  from quiet_acceptLoop [OF loop] obtain es where
    bb: "beside_burst b1 = beside_burst b"
    and es: "trace w1 = trace w @ es" "filter is_cooldown es = []"
    by (auto simp: quiet_def)
  note b1 = beside_burst_eq [OF bb]
  have q1: "quit b1 = quit b" and x1: "exitPipe b1 = exitPipe b"
    by (subst b1, simp)+
  let ?b2 = "b1\<lparr>newClientCount := word_of_nat i\<rparr>"
  let ?w2 = "emit (LogError errcode) w1"
  let ?ps = "(pollers ?b2)(0 := (pollers ?b2 0)\<lparr>fd := fst (exitPipe ?b2), events := POLLIN\<rparr>)"
  have cf: "control_fires ?w2 = control_fires w1"
    by (simp add: control_fires_def)
  from cooldown_poll [of ?ps ?w2] obtain ps' w3 where
    p: "sys_poll ?ps 1 3 ?w2 =
          ((if control_fires w1 then Some (Inr 1) else
             (case poll_script w1 of Inl x # rest \<Rightarrow> Some (Inl x) | _ \<Rightarrow> Some (Inr 0))), ps', w3)"
    and t3: "trace w3 = trace w1 @ [LogError errcode, SysPoll [fst (exitPipe b)] 3]"
    and k3: "backlog w3 = backlog w1"
    by (auto simp: cf x1 emit_def control_fires_def)
  show ?thesis
  proof (cases "control_fires w1")
    case True
    with p have "acceptNewClients e b w = (False, ?b2\<lparr>pollers := ps', quit := True\<rparr>, w3)"
      using loop other by (simp add: acceptNewClients_def Let_def)
    with True es t3 k3 show ?thesis by simp
  next
    case False
    have ne: "(case poll_script w1 of Inl x # rest \<Rightarrow> Some (Inl x) | _ \<Rightarrow> Some (Inr 0))
                \<noteq> Some (Inr (1 :: nat))"
      by (simp split: list.splits sum.splits)
    from False p ne
    have "acceptNewClients e b w = (False, ?b2\<lparr>pollers := ps'\<rparr>, emit LogNotice w3)"
      using loop other by (simp add: acceptNewClients_def Let_def)
    with False es t3 k3 q1 show ?thesis by simp
  qed
qed

theorem cooldown_once_per_failing_burst_witness:
  "fst (snd (acceptLoop 7 0 blank_balancer exhausted_world)) = Some EMFILE \<and>
   EMFILE \<noteq> EAGAIN \<and> EMFILE \<noteq> EWOULDBLOCK \<and>
   control_fires (snd (snd (snd (acceptLoop 7 0 blank_balancer exhausted_world)))) \<and>
   \<not> fst (acceptNewClients 7 blank_balancer exhausted_world) \<and>
   quit (fst (snd (acceptNewClients 7 blank_balancer exhausted_world))) \<and>
   filter is_cooldown (trace (snd (snd (acceptNewClients 7 blank_balancer exhausted_world)))) =
     [LogError EMFILE, SysPoll [3] 3]"
proof -
  let ?l = "acceptLoop 7 0 blank_balancer exhausted_world"
  have e: "fst (snd ?l) = Some EMFILE" by code_simp
  then have loop: "?l = (fst ?l, Some EMFILE, fst (snd (snd ?l)), snd (snd (snd ?l)))"
    by (metis prod.collapse)
  have cf: "control_fires (snd (snd (snd ?l)))" by code_simp
  have t0: "trace exhausted_world = []" and x: "fst (exitPipe blank_balancer) = 3"
    by (simp_all add: exhausted_world_def blank_world_def blank_balancer_def)
  from cooldown_once_per_failing_burst [OF loop] e cf t0 x show ?thesis
    by auto
qed

subsection \<open>The capability flag\<close>

text \<open>
  C6. The constructor sets \<^verbatim>\<open>accept4Available\<close>. A single accept leaves the flag set
  if and only if it was set before and the \<^verbatim>\<open>accept4\<close> call did not fail with
  \<^verbatim>\<open>ENOSYS\<close> or \<^verbatim>\<open>EINVAL\<close>. When the call did fail so, the same attempt is
  retried through the plain branch, once: after the refused \<^verbatim>\<open>accept4\<close> call the
  trace shows one plain \<^verbatim>\<open>accept\<close> call on the same socket and then, for a new
  descriptor, the \<^verbatim>\<open>setNonBlocking\<close> call (with the debug line and the close when
  that throws); the result is what the kernel answered to the plain accept, and the flag
  is clear. The same holds of all the accept calls of a burst and of a whole run of the
  main loop (\<open>flag_follows\<close>): the old trace is a prefix of the new one, the flag is
  set afterwards if and only if it was set before and none of the added
  \<^verbatim>\<open>accept4\<close> calls was refused with one of the two codes, and with the flag clear
  no \<^verbatim>\<open>accept4\<close> call is added. \<^verbatim>\<open>distributeNewClients\<close>, \<^verbatim>\<open>listen\<close>,
  \<^verbatim>\<open>start\<close> and \<^verbatim>\<open>shutdown\<close> leave the flag as it is and make no
  \<^verbatim>\<open>accept4\<close> call. Hence a flag that is clear stays clear, and the combined
  primitive is not used again.
\<close>

theorem capability_flag_only_falls:
  "accept4Available (fst (snd (AcceptLoadBalancer mem w0))) \<and>
   (accept4Available (fst (snd (acceptNonBlockingSocket e b w))) \<longleftrightarrow>
      accept4Available b \<and> fst (callAccept4 e w) \<noteq> Inl ENOSYS \<and>
      fst (callAccept4 e w) \<noteq> Inl EINVAL) \<and>
   (accept4Available b \<and>
      (fst (callAccept4 e w) = Inl ENOSYS \<or> fst (callAccept4 e w) = Inl EINVAL) \<longrightarrow>
      acceptNonBlockingSocket e b w =
        (case acceptPlain e (snd (callAccept4 e w)) of
           (r, w') \<Rightarrow> (r, b\<lparr>accept4Available := False\<rparr>, w'))) \<and>
   (\<forall>x w1 a w2.
      accept4Available b \<and> callAccept4 e w = (x, w1) \<and> (x = Inl ENOSYS \<or> x = Inl EINVAL) \<and>
      dequeue e w1 = (a, w2) \<longrightarrow>
      acceptNonBlockingSocket e b w =
        ((case a of
            Inl err \<Rightarrow> Inl err
          | Inr c \<Rightarrow> (case nonblock_fault w c of None \<Rightarrow> Inr c | Some err \<Rightarrow> Inl err)),
         b\<lparr>accept4Available := False\<rparr>,
         w2\<lparr>trace := trace w @ SysAccept4 e x # SysAccept e a #
              (case a of
                 Inl err \<Rightarrow> []
               | Inr c \<Rightarrow>
                   SysSetNonBlocking c (nonblock_fault w c) #
                   (case nonblock_fault w c of
                      None \<Rightarrow> []
                    | Some err \<Rightarrow> [LogDebug err, SysClose c]))\<rparr>)) \<and>
   flag_follows (b, w) (snd (acceptNonBlockingSocket e b w)) \<and>
   flag_follows (b, w) (snd (acceptNewClients e b w)) \<and>
   flag_follows (b, w) (snd (mainLoop b w)) \<and>
   accept4Available (fst (snd (distributeNewClients b w))) = accept4Available b \<and>
   filter is_accept4 (trace (snd (snd (distributeNewClients b w)))) =
     filter is_accept4 (trace w) \<and>
   accept4Available (fst (snd (listen m d b w))) = accept4Available b \<and>
   filter is_accept4 (trace (snd (snd (listen m d b w)))) = filter is_accept4 (trace w) \<and>
   accept4Available (fst (start b w)) = accept4Available b \<and>
   filter is_accept4 (trace (snd (start b w))) = filter is_accept4 (trace w) \<and>
   accept4Available (fst (shutdown b w)) = accept4Available b \<and>
   filter is_accept4 (trace (snd (shutdown b w))) = filter is_accept4 (trace w) \<and>
   (\<not> accept4Available b \<longrightarrow>
      \<not> accept4Available (fst (snd (acceptNonBlockingSocket e b w))) \<and>
      filter is_accept4 (trace (snd (snd (acceptNonBlockingSocket e b w)))) =
        filter is_accept4 (trace w) \<and>
      \<not> accept4Available (fst (snd (acceptNewClients e b w))) \<and>
      filter is_accept4 (trace (snd (snd (acceptNewClients e b w)))) =
        filter is_accept4 (trace w) \<and>
      \<not> accept4Available (fst (snd (distributeNewClients b w))) \<and>
      \<not> accept4Available (fst (snd (mainLoop b w))) \<and>
      filter is_accept4 (trace (snd (snd (mainLoop b w)))) = filter is_accept4 (trace w) \<and>
      \<not> accept4Available (fst (snd (listen m d b w))) \<and>
      \<not> accept4Available (fst (start b w)) \<and>
      \<not> accept4Available (fst (shutdown b w)))"
proof -
  have ctor: "accept4Available (fst (snd (AcceptLoadBalancer mem w0)))"
    by (simp add: AcceptLoadBalancer_def Let_def split: prod.splits sum.splits option.splits)
  have one: "accept4Available (fst (snd (acceptNonBlockingSocket e b w))) \<longleftrightarrow>
      accept4Available b \<and> fst (callAccept4 e w) \<noteq> Inl ENOSYS \<and>
      fst (callAccept4 e w) \<noteq> Inl EINVAL"
    by (auto simp: acceptNonBlockingSocket_unfold split: prod.splits)
  have plain: "accept4Available b \<and>
      (fst (callAccept4 e w) = Inl ENOSYS \<or> fst (callAccept4 e w) = Inl EINVAL) \<longrightarrow>
      acceptNonBlockingSocket e b w =
        (case acceptPlain e (snd (callAccept4 e w)) of
           (r, w') \<Rightarrow> (r, b\<lparr>accept4Available := False\<rparr>, w'))"
    by (auto simp: acceptNonBlockingSocket_unfold split: prod.splits)
  have retry: "\<forall>x w1 a w2.
      accept4Available b \<and> callAccept4 e w = (x, w1) \<and> (x = Inl ENOSYS \<or> x = Inl EINVAL) \<and>
      dequeue e w1 = (a, w2) \<longrightarrow>
      acceptNonBlockingSocket e b w =
        ((case a of
            Inl err \<Rightarrow> Inl err
          | Inr c \<Rightarrow> (case nonblock_fault w c of None \<Rightarrow> Inr c | Some err \<Rightarrow> Inl err)),
         b\<lparr>accept4Available := False\<rparr>,
         w2\<lparr>trace := trace w @ SysAccept4 e x # SysAccept e a #
              (case a of
                 Inl err \<Rightarrow> []
               | Inr c \<Rightarrow>
                   SysSetNonBlocking c (nonblock_fault w c) #
                   (case nonblock_fault w c of
                      None \<Rightarrow> []
                    | Some err \<Rightarrow> [LogDebug err, SysClose c]))\<rparr>)"
    using retry_plain [of b e w] by blast
  have a: "flag_follows (b, w) (snd (acceptNonBlockingSocket e b w))"
    using flag_follows_acceptNonBlockingSocket [of e b w "fst (acceptNonBlockingSocket e b w)"
            "fst (snd (acceptNonBlockingSocket e b w))" "snd (snd (acceptNonBlockingSocket e b w))"]
    by simp
  have n: "flag_follows (b, w) (snd (acceptNewClients e b w))"
    using flag_follows_acceptNewClients [of e b w "fst (acceptNewClients e b w)"
            "fst (snd (acceptNewClients e b w))" "snd (snd (acceptNewClients e b w))"]
    by simp
  have l: "flag_follows (b, w) (snd (mainLoop b w))"
    using flag_follows_mainLoop [of b w "fst (mainLoop b w)"
            "fst (snd (mainLoop b w))" "snd (snd (mainLoop b w))"]
    by simp
  have d0: "flag_follows (b, w) (snd (distributeNewClients b w))"
    using flag_follows_distributeNewClients [of b w "fst (distributeNewClients b w)"
            "fst (snd (distributeNewClients b w))" "snd (snd (distributeNewClients b w))"]
    by simp
  have dl: "accept4Available b' = accept4Available b \<and>
            filter is_accept4 (trace w') = filter is_accept4 (trace w)"
    if "distributeLoop i b w = (out, b', w')" for i b w out b' w'
    using that
  proof (induction i b w rule: distributeLoop.induct)
    case (1 i b w)
    show ?case
    proof (cases "i < unat (newClientCount b) \<and> unat (nextServer b) < length (servers b)")
      case False
      with "1.prems" show ?thesis
        by (auto simp: distributeLoop.simps [of i b w] split: if_splits)
    next
      case True
      with "1.prems" "1.IH" show ?thesis
        by (simp add: distributeLoop.simps [of i b w])
    qed
  qed
  have d: "accept4Available (fst (snd (distributeNewClients b w))) = accept4Available b \<and>
           filter is_accept4 (trace (snd (snd (distributeNewClients b w)))) =
             filter is_accept4 (trace w)"
    using dl [of 0 b w "fst (distributeLoop 0 b w)" "fst (snd (distributeLoop 0 b w))"
                "snd (snd (distributeLoop 0 b w))"]
    by (cases "distributeLoop 0 b w"; cases "fst (distributeLoop 0 b w)")
       (auto simp: distributeNewClients_def)
  have li: "accept4Available (fst (snd (listen m d b w))) = accept4Available b \<and>
            filter is_accept4 (trace (snd (snd (listen m d b w)))) = filter is_accept4 (trace w)"
    by (simp add: listen_def setNonBlocking_def split: option.splits)
  have st: "accept4Available (fst (start b w)) = accept4Available b \<and>
            filter is_accept4 (trace (snd (start b w))) = filter is_accept4 (trace w)"
    by (simp add: start_def)
  have sh: "accept4Available (fst (shutdown b w)) = accept4Available b \<and>
            filter is_accept4 (trace (snd (shutdown b w))) = filter is_accept4 (trace w)"
    by (simp add: shutdown_def sys_write_def Let_def split: option.splits)
  have clear: "\<not> accept4Available (fst (snd (acceptNonBlockingSocket e b w))) \<and>
      filter is_accept4 (trace (snd (snd (acceptNonBlockingSocket e b w)))) =
        filter is_accept4 (trace w) \<and>
      \<not> accept4Available (fst (snd (acceptNewClients e b w))) \<and>
      filter is_accept4 (trace (snd (snd (acceptNewClients e b w)))) =
        filter is_accept4 (trace w) \<and>
      \<not> accept4Available (fst (snd (distributeNewClients b w))) \<and>
      \<not> accept4Available (fst (snd (mainLoop b w))) \<and>
      filter is_accept4 (trace (snd (snd (mainLoop b w)))) = filter is_accept4 (trace w) \<and>
      \<not> accept4Available (fst (snd (listen m d b w))) \<and>
      \<not> accept4Available (fst (start b w)) \<and>
      \<not> accept4Available (fst (shutdown b w))"
    if off: "\<not> accept4Available b"
    using flag_follows_clear [of b w "fst (snd (acceptNonBlockingSocket e b w))"
            "snd (snd (acceptNonBlockingSocket e b w))"]
          flag_follows_clear [of b w "fst (snd (acceptNewClients e b w))"
            "snd (snd (acceptNewClients e b w))"]
          flag_follows_clear [of b w "fst (snd (mainLoop b w))" "snd (snd (mainLoop b w))"]
          a n l d li st sh off
    by simp
  from ctor one plain retry a n l d li st sh clear show ?thesis
    by (simp only: simp_thms) blast
qed

theorem capability_flag_only_falls_witness:
  "accept4Available demo_balancer \<and>
   fst (callAccept4 7 legacy_world) = Inl ENOSYS \<and>
   fst (dequeue 7 (snd (callAccept4 7 legacy_world))) = Inr 10 \<and>
   nonblock_fault legacy_world 10 = None \<and>
   fst (acceptNonBlockingSocket 7 demo_balancer legacy_world) = Inr 10 \<and>
   \<not> accept4Available (fst (snd (acceptNonBlockingSocket 7 demo_balancer legacy_world))) \<and>
   trace (snd (snd (acceptNonBlockingSocket 7 demo_balancer legacy_world))) =
     [SysAccept4 7 (Inl ENOSYS), SysAccept 7 (Inr 10), SysSetNonBlocking 10 None] \<and>
   \<not> accept4Available (fst (snd (mainLoop demo_balancer legacy_world))) \<and>
   filter is_accept4 (trace (snd (snd (mainLoop demo_balancer legacy_world)))) =
     [SysAccept4 7 (Inl ENOSYS)] \<and>
   accepted (trace (snd (snd (mainLoop demo_balancer legacy_world)))) = [10, 11, 12] \<and>
   accept4Available (fst (snd (mainLoop demo_balancer demo_world))) \<and>
   filter is_accept4 (trace (snd (snd (mainLoop demo_balancer demo_world)))) =
     [SysAccept4 7 (Inr 10), SysAccept4 7 (Inr 11), SysAccept4 7 (Inr 12),
      SysAccept4 7 (Inl EAGAIN)] \<and>
   accept4Available (fst (start demo_balancer legacy_world)) \<and>
   accept4Available (fst (shutdown (fst (start demo_balancer legacy_world))
                                  (snd (start demo_balancer legacy_world)))) \<and>
   \<not> accept4Available (demo_balancer\<lparr>accept4Available := False\<rparr>) \<and>
   \<not> accept4Available
       (fst (snd (mainLoop (demo_balancer\<lparr>accept4Available := False\<rparr>) legacy_world))) \<and>
   filter is_accept4
     (trace (snd (snd (mainLoop (demo_balancer\<lparr>accept4Available := False\<rparr>) legacy_world)))) = []"
proof -
  have h1: "accept4Available demo_balancer"
    by (simp add: demo_balancer_def blank_balancer_def)
  have c: "callAccept4 7 legacy_world =
      (Inl ENOSYS, snd (callAccept4 7 legacy_world))"
    by (simp add: callAccept4_def legacy_world_def blank_world_def)
  have q: "dequeue 7 (snd (callAccept4 7 legacy_world)) =
      (Inr 10, snd (dequeue 7 (snd (callAccept4 7 legacy_world))))"
    by (simp add: callAccept4_def dequeue_def legacy_world_def blank_world_def emit_def)
  have nb: "nonblock_fault legacy_world 10 = None"
    and t0: "trace legacy_world = []" and t1: "trace demo_world = []"
    by (simp_all add: legacy_world_def demo_world_def blank_world_def)
  have tl: "trace (snd (snd (mainLoop demo_balancer legacy_world))) =
     [SysPoll [3, 7] (- 1), SysAccept4 7 (Inl ENOSYS), SysAccept 7 (Inr 10),
      SysSetNonBlocking 10 None, SysAccept 7 (Inr 11), SysSetNonBlocking 11 None,
      SysAccept 7 (Inr 12), SysSetNonBlocking 12 None, SysAccept 7 (Inl EAGAIN),
      RunLater 0 10, RunLater 1 11, RunLater 0 12, SysPoll [3, 7] (- 1),
      SysAccept 7 (Inl EAGAIN), SysPoll [3, 7] (- 1)]"
    by code_simp
  have td: "trace (snd (snd (mainLoop demo_balancer demo_world))) =
     [SysPoll [3, 7] (- 1), SysAccept4 7 (Inr 10), SysAccept4 7 (Inr 11),
      SysAccept4 7 (Inr 12), SysAccept4 7 (Inl EAGAIN), RunLater 0 10,
      RunLater 1 11, RunLater 0 12, SysPoll [3, 7] (- 1)]"
    by code_simp
  note legacy = capability_flag_only_falls
         [where e = 7 and b = demo_balancer and w = legacy_world]
  note modern = capability_flag_only_falls
         [where e = 7 and b = demo_balancer and w = demo_world]
  note off = capability_flag_only_falls
         [where e = 7 and b = "demo_balancer\<lparr>accept4Available := False\<rparr>" and w = legacy_world]
  note retry = legacy [THEN conjunct2, THEN conjunct2, THEN conjunct2, THEN conjunct1,
                       rule_format,
                       of "Inl ENOSYS" "snd (callAccept4 7 legacy_world)" "Inr 10"
                          "snd (dequeue 7 (snd (callAccept4 7 legacy_world)))"]
  from retry h1 c q
  have one: "acceptNonBlockingSocket 7 demo_balancer legacy_world =
      (Inr 10, demo_balancer\<lparr>accept4Available := False\<rparr>,
       (snd (dequeue 7 (snd (callAccept4 7 legacy_world))))
         \<lparr>trace := [] @ [SysAccept4 7 (Inl ENOSYS), SysAccept 7 (Inr 10),
                         SysSetNonBlocking 10 None]\<rparr>)"
    by (simp add: nb t0)
  from legacy have "flag_follows (demo_balancer, legacy_world)
                      (snd (mainLoop demo_balancer legacy_world))"
    by simp
  then have fl: "\<not> accept4Available (fst (snd (mainLoop demo_balancer legacy_world)))"
    by (simp add: flag_follows_def t0 tl)
  from modern have "flag_follows (demo_balancer, demo_world)
                      (snd (mainLoop demo_balancer demo_world))"
    by simp
  then have fm: "accept4Available (fst (snd (mainLoop demo_balancer demo_world)))"
    by (simp add: flag_follows_def t1 td h1)
  from legacy h1
  have st: "accept4Available (fst (start demo_balancer legacy_world))"
    by simp
  from capability_flag_only_falls
         [where b = "fst (start demo_balancer legacy_world)"
            and w = "snd (start demo_balancer legacy_world)"] st
  have sh: "accept4Available (fst (shutdown (fst (start demo_balancer legacy_world))
                                           (snd (start demo_balancer legacy_world))))"
    by simp
  from off t0
  have o: "\<not> accept4Available
       (fst (snd (mainLoop (demo_balancer\<lparr>accept4Available := False\<rparr>) legacy_world)))"
    "filter is_accept4
     (trace (snd (snd (mainLoop (demo_balancer\<lparr>accept4Available := False\<rparr>) legacy_world)))) = []"
    by simp_all
  have c': "fst (callAccept4 7 legacy_world) = Inl ENOSYS"
    by (subst c) simp
  have q': "fst (dequeue 7 (snd (callAccept4 7 legacy_world))) = Inr 10"
    by (subst q) simp
  from h1 c' q' nb one fl fm st sh o show ?thesis
    by (simp add: tl td)
qed

subsection \<open>A burst that ends on an empty queue\<close>

text \<open>
  C7. Let the queue of the endpoint hold exactly \<open>M < 16\<close> connections that the kernel
  can hand out: \<^verbatim>\<open>accept4\<close> works or is reported missing with \<^verbatim>\<open>ENOSYS\<close> or
  \<^verbatim>\<open>EINVAL\<close> (\<open>accept4_usable\<close>), and \<^verbatim>\<open>setNonBlocking\<close> does not fail on the
  new descriptors. Then the burst returns true. It has accepted exactly the \<open>M\<close>
  connections, in queue order, into \<^verbatim>\<open>newClients[0..M)\<close>, with
  \<^verbatim>\<open>newClientCount = M\<close>, and the queue is empty. It has logged no error and no
  notice and made no \<^verbatim>\<open>poll\<close> call (the script of poll results is untouched), it
  has closed nothing, and the quit flag is as it was.
\<close>

theorem would_block_ends_burst:
  assumes pend: "backlog w e = map Conn cs" and M: "length cs < ACCEPT_BURST_COUNT"
    and use: "accept4_usable b w" and nb: "\<forall>c\<in>set cs. nonblock_fault w c = None"
  shows "\<exists>b' w' es.
           acceptNewClients e b w = (True, b', w') \<and>
           unat (newClientCount b') = length cs \<and>
           (\<forall>j<length cs. newClients b' j = cs ! j) \<and>
           trace w' = trace w @ es \<and> accepted es = cs \<and> filter is_cooldown es = [] \<and>
           closed es = [] \<and>
           quit b' = quit b \<and> backlog w' e = [] \<and> poll_script w' = poll_script w"
proof -
  let ?M = "length cs"
  from pend have pend': "backlog w e = map Conn cs @ []" by simp
  from M have le: "0 + ?M \<le> ACCEPT_BURST_COUNT" by simp
  from acceptLoop_conns [OF pend' use nb le] obtain b1 w1 es1 where
    l: "acceptLoop e 0 b w = acceptLoop e ?M b1 w1"
    and b1: "b1 = b\<lparr>accept4Available := accept4Available b1, newClients := newClients b1\<rparr>"
    and w1: "w1 = w\<lparr>backlog := (backlog w)(e := []), trace := trace w @ es1\<rparr>"
    and fl: "accept4Available b1 \<longrightarrow> accept4Available b"
    and nc: "\<forall>j. newClients b1 j = (if 0 \<le> j \<and> j < 0 + ?M then cs ! (j - 0) else newClients b j)"
    and es1: "accepted es1 = cs" "filter is_cooldown es1 = []" "closed es1 = []"
    by auto
  have emp: "backlog w1 e = []" by (subst w1) simp
  have "accept4_unsupported w1 = accept4_unsupported w" by (subst w1) simp
  with use fl have use1: "accept4_usable b1 w1" by (rule accept4_usable_mono)
  let ?b2 = "b1\<lparr>accept4Available := accept4Available b1 \<and> accept4_unsupported w1 = None\<rparr>"
  from accept_empty [OF emp use1] obtain es2 where
    a: "acceptNonBlockingSocket e b1 w1 = (Inl EAGAIN, ?b2, w1\<lparr>trace := trace w1 @ es2\<rparr>)"
    and es2: "accepted es2 = []" "filter is_cooldown es2 = []" "closed es2 = []"
    by blast
  let ?w2 = "w1\<lparr>trace := trace w1 @ es2\<rparr>"
  have loop: "acceptLoop e 0 b w = (?M, Some EAGAIN, ?b2, ?w2)"
    using l M a by (simp add: acceptLoop.simps [of e ?M b1 w1])
  have res: "acceptNewClients e b w = (True, ?b2\<lparr>newClientCount := word_of_nat ?M\<rparr>, ?w2)"
    using loop by (simp add: acceptNewClients_def)
  have cnt: "unat (word_of_nat ?M :: 4 word) = ?M"
    using M by (simp add: unat_of_nat ACCEPT_BURST_COUNT_def)
  have q: "quit ?b2 = quit b" by (subst b1) simp
  have tr: "trace ?w2 = trace w @ (es1 @ es2)" by (subst w1) simp
  have ps: "poll_script ?w2 = poll_script w" by (subst w1) simp
  show ?thesis
  proof (intro exI conjI)
    show "acceptNewClients e b w = (True, ?b2\<lparr>newClientCount := word_of_nat ?M\<rparr>, ?w2)"
      by (rule res)
    show "unat (newClientCount (?b2\<lparr>newClientCount := word_of_nat ?M\<rparr>)) = ?M"
      using cnt by simp
    show "\<forall>j<?M. newClients (?b2\<lparr>newClientCount := word_of_nat ?M\<rparr>) j = cs ! j"
      using nc by simp
    show "trace ?w2 = trace w @ (es1 @ es2)" by (rule tr)
    show "accepted (es1 @ es2) = cs" using es1 es2 by (simp add: accepted_append)
    show "filter is_cooldown (es1 @ es2) = []" using es1 es2 by simp
    show "closed (es1 @ es2) = []" using es1 es2 by (simp add: closed_append)
    show "quit (?b2\<lparr>newClientCount := word_of_nat ?M\<rparr>) = quit b" using q by simp
    show "backlog ?w2 e = []" using emp by simp
    show "poll_script ?w2 = poll_script w" by (rule ps)
  qed
qed

theorem would_block_ends_burst_witness:
  "backlog trickle_world 7 = map Conn [10, 11] \<and>
   length [10, 11 :: int] < ACCEPT_BURST_COUNT \<and>
   accept4_unsupported trickle_world = None \<and>
   nonblock_fault trickle_world 10 = None \<and> nonblock_fault trickle_world 11 = None \<and>
   fst (acceptNewClients 7 blank_balancer trickle_world) \<and>
   unat (newClientCount (fst (snd (acceptNewClients 7 blank_balancer trickle_world)))) = 2 \<and>
   newClients (fst (snd (acceptNewClients 7 blank_balancer trickle_world))) 0 = 10 \<and>
   newClients (fst (snd (acceptNewClients 7 blank_balancer trickle_world))) 1 = 11 \<and>
   filter is_cooldown (trace (snd (snd (acceptNewClients 7 blank_balancer trickle_world)))) = []"
proof -
  have h1: "backlog trickle_world 7 = map Conn [10, 11]"
    and h2: "length [10, 11 :: int] < ACCEPT_BURST_COUNT"
    and h3: "accept4_usable blank_balancer trickle_world"
    and h4: "\<forall>c\<in>set [10, 11]. nonblock_fault trickle_world c = None"
    and t0: "trace trickle_world = []"
    and u: "accept4_unsupported trickle_world = None"
    by (simp_all add: trickle_world_def blank_world_def blank_balancer_def
          ACCEPT_BURST_COUNT_def accept4_usable_def)
  from would_block_ends_burst [OF h1 h2 h3 h4] t0 h1 h2 h4 u show ?thesis
    by auto
qed

subsection \<open>The exit pipe takes priority\<close>

text \<open>
  C8. When the wait of a pass reports \<^verbatim>\<open>POLLIN\<close> on the exit pipe, whatever it
  reports on the endpoints, the pass leaves the loop with the quit flag set. Apart from
  that flag and the \<^verbatim>\<open>pollers\<close> array the object is unchanged, and apart from the
  consumed poll result and the one \<^verbatim>\<open>poll\<close> event the world is unchanged: no accept
  call was made, no queue was touched, the burst buffer and the cursor are as they were
  and nothing was handed over. If the loop was running, \<^verbatim>\<open>mainLoop\<close> returns in that
  state.
\<close>

theorem control_channel_takes_priority:
  assumes "poll_script w = Inr (r0 # rs) # rest" and "r0 AND POLLIN \<noteq> 0"
  shows "\<exists>ps ds.
           mainLoopIteration b w =
             (Break, b\<lparr>pollers := ps, quit := True\<rparr>,
              w\<lparr>poll_script := rest, trace := trace w @ [SysPoll ds (- 1)]\<rparr>) \<and>
           (\<not> quit b \<longrightarrow>
              mainLoop b w =
                (Done, b\<lparr>pollers := ps, quit := True\<rparr>,
                 w\<lparr>poll_script := rest, trace := trace w @ [SysPoll ds (- 1)]\<rparr>))"
proof -
  let ?ps0 = "(pollers b)(0 := (pollers b 0)\<lparr>fd := fst (exitPipe b), events := POLLIN\<rparr>)"
  let ?ps = "fold (\<lambda>i p. p(i + 1 := (p (i + 1))\<lparr>fd := endpoints b i, events := POLLIN\<rparr>))
                 [0..<unat (nEndpoints b)] ?ps0"
  let ?n = "unat (nEndpoints b) + 1"
  let ?ps' = "set_revents ?ps ?n (r0 # rs)"
  let ?ds = "map (\<lambda>i. fd (?ps i)) [0..<?n]"
  let ?w' = "w\<lparr>poll_script := rest, trace := trace w @ [SysPoll ?ds (- 1)]\<rparr>"
  have p: "pollAllEndpoints b w = (Done, b\<lparr>pollers := ?ps'\<rparr>, ?w')"
    using assms(1) by (simp add: pollAllEndpoints_def sys_poll_def Let_def emit_def)
  have r: "revents (?ps' 0) = r0"
    by (simp add: set_revents_def)
  have it: "mainLoopIteration b w = (Break, b\<lparr>pollers := ?ps', quit := True\<rparr>, ?w')"
    using p r assms(2) by (simp add: mainLoopIteration_def)
  then have "\<not> quit b \<longrightarrow> mainLoop b w = (Done, b\<lparr>pollers := ?ps', quit := True\<rparr>, ?w')"
    by (simp add: mainLoop.simps [of b w])
  with it show ?thesis by blast
qed

theorem control_channel_takes_priority_witness:
  "poll_script race_world = Inr (1 # [1]) # [] \<and> (1 :: 16 word) AND POLLIN \<noteq> 0 \<and>
   \<not> quit demo_balancer \<and>
   fst (mainLoop demo_balancer race_world) = Done \<and>
   quit (fst (snd (mainLoop demo_balancer race_world))) \<and>
   backlog (snd (snd (mainLoop demo_balancer race_world))) 7 = [Conn 10] \<and>
   accepted (trace (snd (snd (mainLoop demo_balancer race_world)))) = [] \<and>
   dispatched (trace (snd (snd (mainLoop demo_balancer race_world)))) = []"
proof -
  have h1: "poll_script race_world = Inr (1 # [1]) # []"
    and h2: "(1 :: 16 word) AND POLLIN \<noteq> 0"
    and h3: "\<not> quit demo_balancer"
    and t0: "trace race_world = []" and k0: "backlog race_world 7 = [Conn 10]"
    by (simp_all add: race_world_def blank_world_def POLLIN_def demo_balancer_def
          blank_balancer_def)
  from control_channel_takes_priority [OF h1 h2, of demo_balancer] h1 h2 h3 t0 k0
  show ?thesis by auto
qed

subsection \<open>Shutdown\<close>

text \<open>
  C9. Without a thread (never started, or shut down before) \<^verbatim>\<open>shutdown\<close> changes
  nothing: no write, no join. With a thread it writes one byte to the write end of the
  exit pipe; it logs a warning only if the write failed with a code other than
  \<^verbatim>\<open>EAGAIN\<close> and \<^verbatim>\<open>EWOULDBLOCK\<close>; in every case it then joins the thread,
  deletes it and clears the pointer, in this order, before it returns. A call that follows
  a shutdown does nothing. The join is a call into the thread library, which returns when
  the thread has ended; in the trace it is the event \<open>ThreadJoin\<close>. The function the
  thread runs, \<^verbatim>\<open>mainLoop\<close>, returns normally only with the quit flag set.
\<close>

theorem shutdown_idempotent:
  "(\<not> thread b \<longrightarrow> shutdown b w = (b, w)) \<and>
   (thread b \<longrightarrow>
      shutdown b w =
        (b\<lparr>thread := False\<rparr>,
         w\<lparr>trace := trace w @ [SysWrite (snd (exitPipe b)) 1 (write_fault w)] @
              (case write_fault w of
                 Some e \<Rightarrow> if e \<noteq> EAGAIN \<and> e \<noteq> EWOULDBLOCK then [LogWarn e] else []
               | None \<Rightarrow> []) @
              [ThreadJoin, ThreadDelete]\<rparr>)) \<and>
   shutdown (fst (shutdown b w)) w2 = (fst (shutdown b w), w2) \<and>
   (fst (mainLoop lb lw) = Done \<longrightarrow> quit (fst (snd (mainLoop lb lw))))"
proof -
  have "quit (fst (snd (mainLoop lb lw)))" if "fst (mainLoop lb lw) = Done"
    using mainLoop_Done_quit [of lb lw "fst (snd (mainLoop lb lw))" "snd (snd (mainLoop lb lw))"]
      that
    by (metis prod.collapse)
  then show ?thesis
    by (simp add: shutdown_def sys_write_def emit_def Let_def split: option.splits)
qed

theorem shutdown_idempotent_witness:
  "thread (fst (start blank_balancer full_pipe_world)) \<and>
   trace (snd (shutdown (fst (start blank_balancer full_pipe_world))
                        (snd (start blank_balancer full_pipe_world)))) =
     [ThreadStart, SysWrite 4 1 (Some EAGAIN), ThreadJoin, ThreadDelete] \<and>
   \<not> thread (fst (shutdown (fst (start blank_balancer full_pipe_world))
                           (snd (start blank_balancer full_pipe_world)))) \<and>
   \<not> thread blank_balancer \<and>
   shutdown blank_balancer full_pipe_world = (blank_balancer, full_pipe_world) \<and>
   fst (mainLoop demo_balancer race_world) = Done \<and>
   quit (fst (snd (mainLoop demo_balancer race_world)))"
proof -
  have h1: "thread (fst (start blank_balancer full_pipe_world))"
    and h2: "\<not> thread blank_balancer"
    and t: "trace (snd (start blank_balancer full_pipe_world)) = [ThreadStart]"
    and f: "write_fault (snd (start blank_balancer full_pipe_world)) = Some EAGAIN"
    and x: "snd (exitPipe (fst (start blank_balancer full_pipe_world))) = 4"
    by (simp_all add: start_def blank_balancer_def full_pipe_world_def blank_world_def)
  have h3: "fst (mainLoop demo_balancer race_world) = Done"
    by code_simp
  from shutdown_idempotent [of "fst (start blank_balancer full_pipe_world)"
                               "snd (start blank_balancer full_pipe_world)" _
                               demo_balancer race_world]
       shutdown_idempotent [of blank_balancer full_pipe_world]
       h1 h2 h3 t f x
  show ?thesis by simp
qed

subsection \<open>Termination of the single accept\<close>

text \<open>
  C10. \<^verbatim>\<open>acceptNonBlockingSocket\<close> terminates on every input, whatever the state of
  \<^verbatim>\<open>accept4Available\<close>: every argument is in the domain of the recursion. A call
  makes one \<^verbatim>\<open>accept4\<close> call when the flag is set and none otherwise, and at most
  one plain \<^verbatim>\<open>accept\<close>. With the flag clear it is the plain branch, which does not
  recurse; with the flag set it recurses only after \<^verbatim>\<open>ENOSYS\<close> or \<^verbatim>\<open>EINVAL\<close>,
  with the flag cleared, so the retry is that plain branch and happens at most once.
\<close>

theorem acceptNonBlockingSocket_terminates:
  "acceptNonBlockingSocket_dom (serverFd, b, w) \<and>
   (\<exists>es. trace (snd (snd (acceptNonBlockingSocket serverFd b w))) = trace w @ es \<and>
         length (filter is_accept4 es) = (if accept4Available b then 1 else 0) \<and>
         length (filter is_accept es) \<le> 1) \<and>
   (\<not> accept4Available b \<longrightarrow>
      acceptNonBlockingSocket serverFd b w =
        (case acceptPlain serverFd w of (r, w1) \<Rightarrow> (r, b, w1))) \<and>
   (accept4Available b \<longrightarrow>
      acceptNonBlockingSocket serverFd b w =
        (case callAccept4 serverFd w of
           (r, w1) \<Rightarrow>
             if r = Inl ENOSYS \<or> r = Inl EINVAL
             then (case acceptPlain serverFd w1 of
                     (r2, w2) \<Rightarrow> (r2, b\<lparr>accept4Available := False\<rparr>, w2))
             else (r, b, w1)))"
proof (intro conjI)
  have plain: "acceptNonBlockingSocket_dom (serverFd, b', w')" if "\<not> accept4Available b'"
    for b' w'
    using that by (auto intro: acceptNonBlockingSocket.domintros)
  show "acceptNonBlockingSocket_dom (serverFd, b, w)"
    by (rule acceptNonBlockingSocket.domintros) (rule plain, simp)+
next
  show "\<exists>es. trace (snd (snd (acceptNonBlockingSocket serverFd b w))) = trace w @ es \<and>
         length (filter is_accept4 es) = (if accept4Available b then 1 else 0) \<and>
         length (filter is_accept es) \<le> 1"
  proof (cases "accept4Available b")
    case False
    obtain r w1 where p: "acceptPlain serverFd w = (r, w1)"
      by (cases "acceptPlain serverFd w") auto
    from trace_acceptPlain [OF p] False p show ?thesis
      by (auto simp: acceptNonBlockingSocket_unfold)
  next
    case True
    obtain r w1 where c: "callAccept4 serverFd w = (r, w1)"
      by (cases "callAccept4 serverFd w") auto
    obtain r2 w2 where p: "acceptPlain serverFd w1 = (r2, w2)"
      by (cases "acceptPlain serverFd w1") auto
    from trace_callAccept4 [OF c] trace_acceptPlain [OF p] True c p show ?thesis
      by (auto simp: acceptNonBlockingSocket_unfold)
  qed
next
  show "\<not> accept4Available b \<longrightarrow>
      acceptNonBlockingSocket serverFd b w =
        (case acceptPlain serverFd w of (r, w1) \<Rightarrow> (r, b, w1))"
    by (simp add: acceptNonBlockingSocket_unfold)
next
  show "accept4Available b \<longrightarrow>
      acceptNonBlockingSocket serverFd b w =
        (case callAccept4 serverFd w of
           (r, w1) \<Rightarrow>
             if r = Inl ENOSYS \<or> r = Inl EINVAL
             then (case acceptPlain serverFd w1 of
                     (r2, w2) \<Rightarrow> (r2, b\<lparr>accept4Available := False\<rparr>, w2))
             else (r, b, w1))"
    by (simp add: acceptNonBlockingSocket_unfold)
qed

theorem acceptNonBlockingSocket_terminates_witness:
  "accept4Available blank_balancer \<and>
   fst (acceptNonBlockingSocket 7
          blank_balancer
          (blank_world\<lparr>accept4_unsupported := Some ENOSYS,
                        backlog := (\<lambda>d. [])(7 := [Conn 10])\<rparr>)) = Inr 10 \<and>
   \<not> accept4Available (blank_balancer\<lparr>accept4Available := False\<rparr>) \<and>
   fst (acceptNonBlockingSocket 7
          (blank_balancer\<lparr>accept4Available := False\<rparr>)
          (blank_world\<lparr>backlog := (\<lambda>d. [])(7 := [Conn 10])\<rparr>)) = Inr 10"
  using acceptNonBlockingSocket_terminates
          [of 7 blank_balancer
              "blank_world\<lparr>accept4_unsupported := Some ENOSYS,
                            backlog := (\<lambda>d. [])(7 := [Conn 10])\<rparr>"]
        acceptNonBlockingSocket_terminates
          [of 7 "blank_balancer\<lparr>accept4Available := False\<rparr>"
              "blank_world\<lparr>backlog := (\<lambda>d. [])(7 := [Conn 10])\<rparr>"]
  by (simp add: blank_balancer_def blank_world_def callAccept4_def acceptPlain_def
        sys_accept_def dequeue_def setNonBlocking_def emit_def)

end
